theory Spec2Isabelle
  imports Main
begin

section \<open>JavaScript values\<close>

text \<open>
  The values the interceptor works on are the results of \<^verbatim>\<open>JSON.parse\<close>. An object is the
  list of its own properties in \<^verbatim>\<open>Object.keys\<close> order, an array the list of its elements.
  A number is held as the text \<^verbatim>\<open>String(n)\<close> gives for it (\<^verbatim>\<open>0\<close> and \<^verbatim>\<open>-0\<close> are both
  \<open>''0''\<close>), which is all the code ever asks of a number. A string is a list of code
  units below 256. \<^verbatim>\<open>undefined\<close> is \<open>None\<close> of an option.
\<close>

datatype json =
    JNull
  | JBool bool
  | JNum string
  | JStr string
  | JArr "json list"
  | JObj "(string \<times> json) list"

text \<open>What \<^verbatim>\<open>if (v)\<close>, \<^verbatim>\<open>v && ...\<close> and \<^verbatim>\<open>v || ...\<close> test.\<close>

fun truthy :: "json \<Rightarrow> bool" where
  "truthy JNull = False"
| "truthy (JBool b) = b"
| "truthy (JNum s) = (s \<noteq> ''0'' \<and> s \<noteq> ''NaN'')"
| "truthy (JStr s) = (s \<noteq> [])"
| "truthy (JArr xs) = True"
| "truthy (JObj kvs) = True"

definition truthy_opt :: "json option \<Rightarrow> bool" where
  "truthy_opt v = (case v of None \<Rightarrow> False | Some x \<Rightarrow> truthy x)"

text \<open>\<^verbatim>\<open>Array.prototype.join(',')\<close> on the strings of the elements.\<close>

fun join_comma :: "string list \<Rightarrow> string" where
  "join_comma [] = []"
| "join_comma [s] = s"
| "join_comma (s # t # ss) = s @ '','' @ join_comma (t # ss)"

text \<open>
  \<^verbatim>\<open>String(v)\<close>, also what a template literal and \<^verbatim>\<open>+=\<close> on a string do to \<open>v\<close>.
  An array joins its elements with commas, \<^verbatim>\<open>null\<close> elements giving the empty string.
\<close>

fun js_String :: "json \<Rightarrow> string" where
  "js_String JNull = ''null''"
| "js_String (JBool b) = (if b then ''true'' else ''false'')"
| "js_String (JNum s) = s"
| "js_String (JStr s) = s"
| "js_String (JArr xs) =
     join_comma (map (\<lambda>x. if x = JNull then [] else js_String x) xs)"
| "js_String (JObj kvs) = ''[object Object]''"

text \<open>\<^verbatim>\<open>String(v)\<close> of a value that may be \<^verbatim>\<open>undefined\<close>.\<close>

definition string_of :: "json option \<Rightarrow> string" where
  "string_of v = (case v of None \<Rightarrow> ''undefined'' | Some x \<Rightarrow> js_String x)"

text \<open>
  \<^verbatim>\<open>v.k\<close> for the property names the code reads: an own property of an object, and
  \<^verbatim>\<open>undefined\<close> on an array, a string, a number or a boolean (none of the names read is
  a built-in property). Reading a property of \<^verbatim>\<open>null\<close> throws; the callers below guard it
  or model the throw.
\<close>

fun get_prop :: "json \<Rightarrow> string \<Rightarrow> json option" where
  "get_prop (JObj kvs) k = map_of kvs k"
| "get_prop v k = None"

text \<open>\<^verbatim>\<open>typeof v === 'object'\<close>: objects, arrays and \<^verbatim>\<open>null\<close>.\<close>

fun typeof_object :: "json \<Rightarrow> bool" where
  "typeof_object JNull = True"
| "typeof_object (JArr xs) = True"
| "typeof_object (JObj kvs) = True"
| "typeof_object v = False"

subsection \<open>Character classes of the regular expressions\<close>

definition is_digit :: "char \<Rightarrow> bool" where
  "is_digit c = (c \<in> set ''0123456789'')"

text \<open>\<^verbatim>\<open>\w\<close> without the unicode flag: ASCII letters, digits and the underscore.\<close>

definition is_word :: "char \<Rightarrow> bool" where
  "is_word c = (c \<in> set ''abcdefghijklmnopqrstuvwxyzABCDEFGHIJKLMNOPQRSTUVWXYZ0123456789_'')"

text \<open>The class \<^verbatim>\<open>[\w.]\<close>.\<close>

definition is_uname_char :: "char \<Rightarrow> bool" where
  "is_uname_char c = (is_word c \<or> c = CHR ''.'')"

text \<open>\<^verbatim>\<open>/^\d+$/\<close>\<close>

definition all_digits :: "string \<Rightarrow> bool" where
  "all_digits s = (s \<noteq> [] \<and> list_all is_digit s)"

text \<open>\<^verbatim>\<open>/^[\w.]+$/\<close>\<close>

definition valid_username :: "string \<Rightarrow> bool" where
  "valid_username s = (s \<noteq> [] \<and> list_all is_uname_char s)"

subsection \<open>String helpers\<close>

text \<open>\<^verbatim>\<open>s.startsWith(p)\<close> and \<^verbatim>\<open>s.includes(p)\<close> on strings.\<close>

fun starts_with :: "string \<Rightarrow> string \<Rightarrow> bool" where
  "starts_with s [] = True"
| "starts_with [] (p # ps) = False"
| "starts_with (c # s) (p # ps) = (c = p \<and> starts_with s ps)"

fun str_includes :: "string \<Rightarrow> string \<Rightarrow> bool" where
  "str_includes [] p = (p = [])"
| "str_includes (c # s) p = (starts_with (c # s) p \<or> str_includes s p)"

text \<open>The guard prefix is nine characters long; \<^verbatim>\<open>substring(9)\<close> drops it.\<close>

definition strip_guard :: "string \<Rightarrow> string" where
  "strip_guard text = (if starts_with text ''for (;;);'' then drop 9 text else text)"

text \<open>Decimal text of an array index, as \<^verbatim>\<open>Object.keys\<close> and \<^verbatim>\<open>Object.entries\<close> give it.\<close>

definition digit_char :: "nat \<Rightarrow> char" where
  "digit_char d = ''0123456789'' ! d"

function index_key :: "nat \<Rightarrow> string" where
  "index_key n = (if n < 10 then [digit_char n] else index_key (n div 10) @ [digit_char (n mod 10)])"
  by pat_completeness auto
termination
  by (relation "measure id") auto

text \<open>
  \<^verbatim>\<open>Object.entries(v)\<close> of a value that is not \<^verbatim>\<open>null\<close>: the own properties of an object,
  the indexed elements of an array, the indexed characters of a string, nothing for a
  number or a boolean.
\<close>

fun object_entries :: "json \<Rightarrow> (string \<times> json) list" where
  "object_entries (JObj kvs) = kvs"
| "object_entries (JArr xs) = zip (map index_key [0..<length xs]) xs"
| "object_entries (JStr s) = zip (map index_key [0..<length s]) (map (\<lambda>c. JStr [c]) s)"
| "object_entries v = []"

text \<open>
  \<^verbatim>\<open>v?.k\<close>: \<^verbatim>\<open>undefined\<close> when \<open>v\<close> is \<^verbatim>\<open>undefined\<close> or \<^verbatim>\<open>null\<close>, the property otherwise.
\<close>

definition opt_prop :: "json option \<Rightarrow> string \<Rightarrow> json option" where
  "opt_prop v k = (case v of None \<Rightarrow> None | Some x \<Rightarrow> get_prop x k)"

text \<open>\<^verbatim>\<open>a || b\<close> on values that may be \<^verbatim>\<open>undefined\<close>.\<close>

definition js_or :: "json option \<Rightarrow> json option \<Rightarrow> json option" where
  "js_or a b = (if truthy_opt a then a else b)"

section \<open>Profile records\<close>

text \<open>
  The record \<^verbatim>\<open>extractProfileInfo\<close> fills. A property that is absent is \<open>None\<close>.
  \<^verbatim>\<open>_lastLabelIndex\<close> is absent at first, a label's ordinal after a label, and \<^verbatim>\<open>null\<close>
  once a value has been taken.
\<close>

datatype js_index = Absent | Null | Index nat

record profileInfo =
  displayName :: "string option"
  username :: "string option"
  joined :: "json option"
  location :: "json option"
  profileImage :: "json option"
  labelCount :: "nat option"
  valueCount :: "nat option"
  lastLabelIndex :: js_index
  userIdOnly :: bool

definition empty_profile :: profileInfo where
  "empty_profile = \<lparr>displayName = None, username = None, joined = None, location = None,
                    profileImage = None, labelCount = None, valueCount = None,
                    lastLabelIndex = Absent, userIdOnly = False\<rparr>"

text \<open>
  What \<^verbatim>\<open>fetchProfileInfo\<close> returns: \<^verbatim>\<open>null\<close>, the marker \<^verbatim>\<open>{ _rateLimited: true }\<close>, or
  the profile record.
\<close>

datatype fetch_result = ResultNull | ResultRateLimited | ResultProfile profileInfo

section \<open>User id mapping\<close>

text \<open>
  \<^verbatim>\<open>userIdMap\<close> is a \<^verbatim>\<open>Map\<close>: the list of its entries in insertion order. Its values
  are strings when \<^verbatim>\<open>addUserId\<close> stored them and whatever the cache message carried
  otherwise. \<^verbatim>\<open>pendingNewUserIds\<close> is a plain object used as a dictionary. The debounce
  timer runs on a virtual clock in milliseconds: \<open>broadcastTimeout\<close> is the time at
  which the armed timer is due, \<open>None\<close> when none is armed. \<open>posted\<close> collects what
  \<^verbatim>\<open>window.postMessage\<close> was called with.
\<close>

datatype message =
    NewUserIds "(string \<times> string) list"
  | UserIdResponse "json option" json
  | FetchResponse "json option" fetch_result

record state =
  userIdMap :: "(string \<times> json) list"
  pendingNewUserIds :: "(string \<times> string) list"
  broadcastTimeout :: "nat option"
  now :: nat
  posted :: "message list"

definition init_state :: state where
  "init_state = \<lparr>userIdMap = [], pendingNewUserIds = [], broadcastTimeout = None,
                 now = 0, posted = []\<rparr>"

text \<open>\<^verbatim>\<open>Map.prototype.has\<close>, \<^verbatim>\<open>get\<close> and \<^verbatim>\<open>set\<close>.\<close>

definition map_has :: "(string \<times> json) list \<Rightarrow> string \<Rightarrow> bool" where
  "map_has m k = (map_of m k \<noteq> None)"

definition map_get :: "(string \<times> json) list \<Rightarrow> string \<Rightarrow> json option" where
  "map_get m k = map_of m k"

definition map_set :: "(string \<times> json) list \<Rightarrow> string \<Rightarrow> json \<Rightarrow> (string \<times> json) list" where
  "map_set m k v = (if map_has m k then map (\<lambda>(k', v'). if k' = k then (k', v) else (k', v')) m
                    else m @ [(k, v)])"

text \<open>
  \<^verbatim>\<open>obj[k] = v\<close> on a plain object with a string \<open>v\<close>. The key \<^verbatim>\<open>__proto__\<close> reaches the
  setter inherited from \<^verbatim>\<open>Object.prototype\<close>, which ignores a value that is neither an
  object nor \<^verbatim>\<open>null\<close>: no own property is created.
\<close>

definition obj_set :: "(string \<times> string) list \<Rightarrow> string \<Rightarrow> string \<Rightarrow> (string \<times> string) list" where
  "obj_set obj k v =
     (if k = ''__proto__'' then obj
      else if map_of obj k \<noteq> None then map (\<lambda>(k', v'). if k' = k then (k', v) else (k', v')) obj
      else obj @ [(k, v)])"

text \<open>
  The timer callback set up in \<^verbatim>\<open>broadcastNewUserIds\<close>;
  \<^verbatim>\<open>Object.keys(pendingNewUserIds).length > 0\<close> is the list being non-empty.
\<close>

definition broadcast_callback :: "state \<Rightarrow> state" where
  "broadcast_callback st =
     (if pendingNewUserIds st \<noteq> []
      then st\<lparr>posted := posted st @ [NewUserIds (pendingNewUserIds st)],
              pendingNewUserIds := []\<rparr>
      else st)"

text \<open>\<^verbatim>\<open>broadcastNewUserIds\<close>: cancel the pending timer and arm a new one, one second on.\<close>

definition broadcastNewUserIds :: "state \<Rightarrow> state" where
  "broadcastNewUserIds st = st\<lparr>broadcastTimeout := Some (now st + 1000)\<rparr>"

definition addUserId :: "state \<Rightarrow> string \<Rightarrow> string \<Rightarrow> bool \<times> state" where
  "addUserId st uname userId =
     (if \<not> map_has (userIdMap st) uname
      then (True, broadcastNewUserIds
                    (st\<lparr>userIdMap := map_set (userIdMap st) uname (JStr userId),
                        pendingNewUserIds := obj_set (pendingNewUserIds st) uname userId\<rparr>))
      else (False, st))"

text \<open>
  The virtual clock moves to time \<open>t\<close>: a timer due by then runs its callback first.
\<close>

definition advance :: "nat \<Rightarrow> state \<Rightarrow> state" where
  "advance t st =
     (case broadcastTimeout st of
        Some due \<Rightarrow>
          if due \<le> t then (broadcast_callback st)\<lparr>broadcastTimeout := None, now := t\<rparr>
          else st\<lparr>now := t\<rparr>
      | None \<Rightarrow> st\<lparr>now := t\<rparr>)"

text \<open>A run of discoveries \<open>(t, username, userId)\<close>: at time \<open>t\<close> \<^verbatim>\<open>addUserId\<close> is called.\<close>

fun discoveries :: "state \<Rightarrow> (nat \<times> string \<times> string) list \<Rightarrow> state" where
  "discoveries st [] = st"
| "discoveries st ((t, uname, userId) # rest) =
     discoveries (snd (addUserId (advance t st) uname userId)) rest"

text \<open>
  The body of the loop in the listener for \<^verbatim>\<open>threads-load-userid-cache\<close>, over the
  entries of the delivered cache.
\<close>

fun load_entries :: "state \<Rightarrow> (string \<times> json) list \<Rightarrow> state" where
  "load_entries st [] = st"
| "load_entries st ((uname, userId) # rest) =
     load_entries
       (if \<not> map_has (userIdMap st) uname
        then st\<lparr>userIdMap := map_set (userIdMap st) uname userId\<rparr>
        else st) rest"

text \<open>
  The listener itself, on \<^verbatim>\<open>event.data\<close>. \<^verbatim>\<open>Object.entries\<close> of a missing or \<^verbatim>\<open>null\<close>
  cache throws out of the listener and nothing is stored.
\<close>

definition cache_listener :: "state \<Rightarrow> json \<Rightarrow> state" where
  "cache_listener st data =
     (if get_prop data ''type'' = Some (JStr ''threads-load-userid-cache'')
      then (case get_prop data ''data'' of
              None \<Rightarrow> st
            | Some JNull \<Rightarrow> st
            | Some cachedUserIds \<Rightarrow> load_entries st (object_entries cachedUserIds))
      else st)"

section \<open>Identity miner\<close>

text \<open>The three checks \<^verbatim>\<open>extractUserIds\<close> makes at an object or array \<open>obj\<close>, in order.\<close>

definition check_id :: "state \<Rightarrow> json \<Rightarrow> state" where
  "check_id st obj =
     (case (get_prop obj ''id'', get_prop obj ''username'') of
        (Some i, Some u) \<Rightarrow>
          if truthy i \<and> truthy u then
            (let userId = js_String i; uname = js_String u
             in if all_digits userId \<and> valid_username uname
                then snd (addUserId st uname userId) else st)
          else st
      | _ \<Rightarrow> st)"

definition check_pk :: "state \<Rightarrow> json \<Rightarrow> state" where
  "check_pk st obj =
     (case (get_prop obj ''pk'', get_prop obj ''username'') of
        (Some i, Some u) \<Rightarrow>
          if truthy i \<and> truthy u then
            (let userId = js_String i; uname = js_String u
             in if all_digits userId \<and> valid_username uname
                then snd (addUserId st uname userId) else st)
          else st
      | _ \<Rightarrow> st)"

text \<open>\<^verbatim>\<open>String(a || '')\<close>: the string of \<open>a\<close> when it is truthy, the empty string otherwise.\<close>

definition string_or_empty :: "json option \<Rightarrow> string" where
  "string_or_empty a = (case a of Some v \<Rightarrow> if truthy v then js_String v else [] | None \<Rightarrow> [])"

definition check_nested :: "state \<Rightarrow> json \<Rightarrow> state" where
  "check_nested st obj =
     (case get_prop obj ''user'' of
        Some user \<Rightarrow>
          if truthy user \<and> typeof_object user then
            (let userId = string_or_empty (js_or (get_prop user ''pk'') (get_prop user ''id''));
                 uname = string_or_empty (get_prop user ''username'')
             in if all_digits userId \<and> valid_username uname
                then snd (addUserId st uname userId) else st)
          else st
      | None \<Rightarrow> st)"

definition node_checks :: "state \<Rightarrow> json \<Rightarrow> state" where
  "node_checks st obj = check_nested (check_pk (check_id st obj) obj) obj"

text \<open>
  \<^verbatim>\<open>extractUserIds\<close>. On an array \<^verbatim>\<open>Object.keys\<close> gives the indices, so the loop runs
  over the elements. A value that is an array has \<^verbatim>\<open>extractUserIds\<close> called on each of
  its items, another object has it called on itself, anything else is skipped.
\<close>

function (sequential) extractUserIds :: "state \<Rightarrow> json \<Rightarrow> state"
  and extract_values :: "state \<Rightarrow> json list \<Rightarrow> state"
  and extract_items :: "state \<Rightarrow> json list \<Rightarrow> state" where
  "extractUserIds st (JObj kvs) = extract_values (node_checks st (JObj kvs)) (map snd kvs)"
| "extractUserIds st (JArr xs) = extract_values (node_checks st (JArr xs)) xs"
| "extractUserIds st v = st"
| "extract_values st [] = st"
| "extract_values st (JArr items # vs) = extract_values (extract_items st items) vs"
| "extract_values st (JObj kvs # vs) = extract_values (extractUserIds st (JObj kvs)) vs"
| "extract_values st (v # vs) = extract_values st vs"
| "extract_items st [] = st"
| "extract_items st (item # items) = extract_items (extractUserIds st item) items"
  by pat_completeness auto

termination
proof (relation "measure (\<lambda>x. case x of
           Inl (st, j) \<Rightarrow> 2 * size j
         | Inr (Inl (st, vs)) \<Rightarrow> 2 * size_list size vs + 1
         | Inr (Inr (st, items)) \<Rightarrow> 2 * size_list size items + 1)", goal_cases)
  case (2 st kvs)
  have "size_list size (map snd kvs) \<le> size_list (size_prod (\<lambda>_. 0) size) kvs"
    by (induction kvs) auto
  then show ?case by simp
qed auto

subsection \<open>Bulk route definitions\<close>

text \<open>\<^verbatim>\<open>decodedKey.match(/^\/@([\w.]+)/)\<close>: the first group, when the key matches.\<close>

definition route_username :: "string \<Rightarrow> string option" where
  "route_username decodedKey =
     (case decodedKey of
        c1 # c2 # rest \<Rightarrow>
          if c1 = CHR ''/'' \<and> c2 = CHR ''@'' \<and> takeWhile is_uname_char rest \<noteq> []
          then Some (takeWhile is_uname_char rest) else None
      | _ \<Rightarrow> None)"

text \<open>
  \<^verbatim>\<open>JSON.parse\<close> of the key between double quotes is the platform's: \<open>unq\<close> stands for
  it, \<open>None\<close> when it throws. The \<^verbatim>\<open>catch\<close> keeps the raw key.
\<close>

definition decode_key :: "(string \<Rightarrow> string option) \<Rightarrow> string \<Rightarrow> string" where
  "decode_key unq routeKey = (case unq routeKey of Some decoded \<Rightarrow> decoded | None \<Rightarrow> routeKey)"

text \<open>
  \<^verbatim>\<open>routeData.result?.exports?.[view]?.props?.user_id\<close> for a \<open>routeData\<close> that is not
  \<^verbatim>\<open>null\<close>.
\<close>

definition view_user_id :: "json \<Rightarrow> string \<Rightarrow> json option" where
  "view_user_id routeData view =
     opt_prop (opt_prop (opt_prop (opt_prop (get_prop routeData ''result'') ''exports'') view)
       ''props'') ''user_id''"

text \<open>
  The loop over \<^verbatim>\<open>Object.entries(data.payload.payloads)\<close>, the same in the fetch hook and
  in the XHR load handler. The first component of the result tells whether the loop
  threw: \<^verbatim>\<open>routeData.result\<close> on a \<^verbatim>\<open>null\<close> descriptor is a \<^verbatim>\<open>TypeError\<close>, which ends the
  loop and is caught by the enclosing \<^verbatim>\<open>try\<close>.
\<close>

fun route_loop :: "(string \<Rightarrow> string option) \<Rightarrow> state \<Rightarrow> (string \<times> json) list \<Rightarrow> bool \<times> state" where
  "route_loop unq st [] = (False, st)"
| "route_loop unq st ((routeKey, routeData) # rest) =
     (case route_username (decode_key unq routeKey) of
        None \<Rightarrow> route_loop unq st rest
      | Some uname \<Rightarrow>
          if routeData = JNull then (True, st)
          else (case js_or (view_user_id routeData ''rootView'')
                           (view_user_id routeData ''hostableView'') of
                  Some userId \<Rightarrow>
                    route_loop unq
                      (if truthy userId then snd (addUserId st uname (js_String userId)) else st)
                      rest
                | None \<Rightarrow> route_loop unq st rest))"

text \<open>\<^verbatim>\<open>if (data.payload?.payloads) { ... }\<close>; \<^verbatim>\<open>data.payload\<close> on \<^verbatim>\<open>null\<close> throws.\<close>

definition bulk_routes :: "(string \<Rightarrow> string option) \<Rightarrow> state \<Rightarrow> json \<Rightarrow> bool \<times> state" where
  "bulk_routes unq st data =
     (if data = JNull then (True, st)
      else (case opt_prop (get_prop data ''payload'') ''payloads'' of
              Some payloads \<Rightarrow>
                if truthy payloads then route_loop unq st (object_entries payloads)
                else (False, st)
            | None \<Rightarrow> (False, st)))"

text \<open>
  The fetch hook's mining of a response, for a request whose url is a string.
  \<open>parse\<close> stands for \<^verbatim>\<open>JSON.parse\<close>, \<open>None\<close> when it throws. Whatever is thrown inside
  the \<^verbatim>\<open>try\<close> skips the rest of it, the call of \<^verbatim>\<open>extractUserIds\<close> included.
\<close>

definition fetch_mine :: "(string \<Rightarrow> json option) \<Rightarrow> (string \<Rightarrow> string option) \<Rightarrow> state \<Rightarrow> string \<Rightarrow> string \<Rightarrow> state" where
  "fetch_mine parse unq st url text =
     (let jsonStr = strip_guard text in
      if starts_with jsonStr ''{'' \<or> starts_with jsonStr ''[''
      then (case parse jsonStr of
              None \<Rightarrow> st
            | Some data \<Rightarrow>
                (let (threw, st1) =
                       (if str_includes url ''bulk-route-definitions''
                        then bulk_routes unq st data else (False, st))
                 in if threw then st1 else extractUserIds st1 data))
      else st)"

text \<open>The load handler \<^verbatim>\<open>XMLHttpRequest.prototype.send\<close> installs for the same url.\<close>

definition xhr_mine :: "(string \<Rightarrow> json option) \<Rightarrow> (string \<Rightarrow> string option) \<Rightarrow> state \<Rightarrow> string \<Rightarrow> string \<Rightarrow> state" where
  "xhr_mine parse unq st xhrUrl responseText =
     (if xhrUrl \<noteq> [] \<and> str_includes xhrUrl ''bulk-route-definitions''
      then (case parse (strip_guard responseText) of
              None \<Rightarrow> st
            | Some data \<Rightarrow> snd (bulk_routes unq st data))
      else st)"

section \<open>Profile response parser\<close>

fun index_truthy :: "js_index \<Rightarrow> bool" where
  "index_truthy (Index n) = (n \<noteq> 0)"
| "index_truthy i = False"

definition init_counters :: "profileInfo \<Rightarrow> profileInfo" where
  "init_counters result =
     (if labelCount result = None then result\<lparr>labelCount := Some 0, valueCount := Some 0\<rparr>
      else result)"

subsection \<open>Text components\<close>

text \<open>
  The branch for \<^verbatim>\<open>obj['bk.components.Text']\<close>. It runs after \<open>init_counters\<close>, so
  the label counter is a number when \<^verbatim>\<open>_labelCount++\<close> is reached.
\<close>

definition text_step :: "json \<Rightarrow> profileInfo \<Rightarrow> profileInfo" where
  "text_step obj result =
     (case get_prop obj ''bk.components.Text'' of
        Some textComp \<Rightarrow>
          if truthy textComp then
            (let text = get_prop textComp ''text'';
                 style = get_prop textComp ''text_style''
             in if style = Some (JStr ''semibold'') \<and> truthy_opt text then
                  (case labelCount result of
                     Some n \<Rightarrow> result\<lparr>labelCount := Some (Suc n), lastLabelIndex := Index (Suc n)\<rparr>
                   | None \<Rightarrow> result)
                else if style = Some (JStr ''normal'') \<and> truthy_opt text
                        \<and> index_truthy (lastLabelIndex result) then
                  (if lastLabelIndex result = Index 2 \<and> \<not> truthy_opt (joined result)
                   then result\<lparr>joined := text\<rparr>
                   else if lastLabelIndex result = Index 3 \<and> \<not> truthy_opt (location result)
                   then result\<lparr>location := text\<rparr>
                   else result)\<lparr>lastLabelIndex := Null\<rparr>
                else result)
          else result
      | None \<Rightarrow> result)"

subsection \<open>Rich text components\<close>

text \<open>
  \<^verbatim>\<open>\s\<close> and the line terminators that \<^verbatim>\<open>.\<close> refuses, among the code units below 256.
  \<^verbatim>\<open>trim\<close> removes the same characters as \<^verbatim>\<open>\s\<close> matches.
\<close>

definition is_space :: "char \<Rightarrow> bool" where
  "is_space c = (c \<in> set [CHR 0x09, CHR 0x0A, CHR 0x0B, CHR 0x0C, CHR 0x0D, CHR 0x20, CHR 0xA0])"

definition is_line_terminator :: "char \<Rightarrow> bool" where
  "is_line_terminator c = (c = CHR 0x0A \<or> c = CHR 0x0D)"

definition trim :: "string \<Rightarrow> string" where
  "trim s = rev (dropWhile is_space (rev (dropWhile is_space s)))"

text \<open>
  \<^verbatim>\<open>\s*\(@([\w.]+)\<close> at the start of \<open>r\<close>: the second group and what follows it. No
  space is an opening parenthesis and no name character ends a name, so both greedy
  runs are the longest ones.
\<close>

definition paren_at :: "string \<Rightarrow> (string \<times> string) option" where
  "paren_at r =
     (case dropWhile is_space r of
        c1 # c2 # r2 \<Rightarrow>
          if c1 = CHR ''('' \<and> c2 = CHR ''@'' \<and> takeWhile is_uname_char r2 \<noteq> []
          then Some (takeWhile is_uname_char r2, dropWhile is_uname_char r2) else None
      | _ \<Rightarrow> None)"

text \<open>
  \<^verbatim>\<open>^(.+?)\<close> followed by \<open>tail\<close>: the lazy group grows one character at a time, over
  anything but a line terminator, until \<open>tail\<close> matches what is left.
\<close>

fun lazy_group :: "(string \<Rightarrow> 'a option) \<Rightarrow> string \<Rightarrow> string \<Rightarrow> (string \<times> 'a) option" where
  "lazy_group tail pre [] = (case tail [] of Some x \<Rightarrow> Some (pre, x) | None \<Rightarrow> None)"
| "lazy_group tail pre (c # r) =
     (case tail (c # r) of
        Some x \<Rightarrow> Some (pre, x)
      | None \<Rightarrow> if is_line_terminator c then None else lazy_group tail (pre @ [c]) r)"

definition lazy_match :: "(string \<Rightarrow> 'a option) \<Rightarrow> string \<Rightarrow> (string \<times> 'a) option" where
  "lazy_match tail s =
     (case s of
        [] \<Rightarrow> None
      | c # r \<Rightarrow> if is_line_terminator c then None else lazy_group tail [c] r)"

text \<open>Pattern 1, \<^verbatim>\<open>/^(.+?)\s*\(@([\w.]+)\)$/\<close>: groups 1 and 2.\<close>

definition pattern1 :: "string \<Rightarrow> (string \<times> string) option" where
  "pattern1 fullText =
     lazy_match (\<lambda>r. case paren_at r of
                        Some (u, rest) \<Rightarrow> if rest = '')'' then Some u else None
                      | None \<Rightarrow> None) fullText"

text \<open>Pattern 2, \<^verbatim>\<open>/^(.+?)\s*\(@([\w.]+)/\<close>: groups 1 and 2.\<close>

definition pattern2 :: "string \<Rightarrow> (string \<times> string) option" where
  "pattern2 fullText = lazy_match (\<lambda>r. map_option fst (paren_at r)) fullText"

text \<open>Pattern 3, \<^verbatim>\<open>/@([\w.]+)/\<close>, searched from the left: group 1.\<close>

fun pattern3 :: "string \<Rightarrow> string option" where
  "pattern3 [] = None"
| "pattern3 (c # r) =
     (if c = CHR ''@'' \<and> takeWhile is_uname_char r \<noteq> [] then Some (takeWhile is_uname_char r)
      else pattern3 r)"

text \<open>\<^verbatim>\<open>/^(.+?)\s*\(@/\<close>: group 1.\<close>

definition name_pattern :: "string \<Rightarrow> string option" where
  "name_pattern fullText =
     map_option fst
       (lazy_match (\<lambda>r. case dropWhile is_space r of
                           c1 # c2 # r2 \<Rightarrow> if c1 = CHR ''('' \<and> c2 = CHR ''@'' then Some () else None
                         | _ \<Rightarrow> None) fullText)"

text \<open>
  What the three patterns do to the record. Patterns 1 and 2 have a second group and
  reach the last \<^verbatim>\<open>if\<close>; pattern 3 has none and assigns in its own branch.
\<close>

definition apply_patterns :: "string \<Rightarrow> profileInfo \<Rightarrow> profileInfo" where
  "apply_patterns fullText result =
     (case pattern1 fullText of
        Some (g1, g2) \<Rightarrow> result\<lparr>displayName := Some (trim g1), username := Some g2\<rparr>
      | None \<Rightarrow>
          (case pattern2 fullText of
             Some (g1, g2) \<Rightarrow> result\<lparr>displayName := Some (trim g1), username := Some g2\<rparr>
           | None \<Rightarrow>
               (case pattern3 fullText of
                  Some g1 \<Rightarrow>
                    (case name_pattern fullText of
                       Some n \<Rightarrow> result\<lparr>username := Some g1, displayName := Some (trim n)\<rparr>
                     | None \<Rightarrow> result\<lparr>username := Some g1\<rparr>)
                | None \<Rightarrow> result)))"

text \<open>
  \<^verbatim>\<open>for (const child of children)\<close>: an array gives its elements, a string its
  characters, \<^verbatim>\<open>[]\<close> stands in for a falsy \<^verbatim>\<open>children\<close>; a number, \<^verbatim>\<open>true\<close> or an object
  is not iterable and the loop throws (\<open>None\<close>).
\<close>

definition children_of :: "json \<Rightarrow> json list option" where
  "children_of richText =
     (case get_prop richText ''children'' of
        Some c \<Rightarrow>
          if truthy c then
            (case c of
               JArr xs \<Rightarrow> Some xs
             | JStr s \<Rightarrow> Some (map (\<lambda>ch. JStr [ch]) s)
             | _ \<Rightarrow> None)
          else Some []
      | None \<Rightarrow> Some [])"

text \<open>
  The concatenation loop. \<^verbatim>\<open>child['bk.components.TextSpan']\<close> throws on a \<^verbatim>\<open>null\<close> child.
\<close>

fun full_text :: "json list \<Rightarrow> string option" where
  "full_text [] = Some []"
| "full_text (child # rest) =
     (if child = JNull then None
      else (case full_text rest of
              None \<Rightarrow> None
            | Some t \<Rightarrow>
                Some ((case get_prop child ''bk.components.TextSpan'' of
                         Some span \<Rightarrow> if truthy span then string_or_empty (get_prop span ''text'') else []
                       | None \<Rightarrow> []) @ t)))"

definition rich_step :: "json \<Rightarrow> profileInfo \<Rightarrow> profileInfo option" where
  "rich_step obj result =
     (case get_prop obj ''bk.components.RichText'' of
        Some richText \<Rightarrow>
          if truthy richText then
            (case children_of richText of
               None \<Rightarrow> None
             | Some children \<Rightarrow>
                 (case full_text children of
                    None \<Rightarrow> None
                  | Some fullText \<Rightarrow> Some (apply_patterns fullText result)))
          else Some result
      | None \<Rightarrow> Some result)"

subsection \<open>Image components\<close>

text \<open>
  \<^verbatim>\<open>url && url.includes('cdninstagram.com')\<close>: a substring test on a string, an element
  test on an array, and a \<^verbatim>\<open>TypeError\<close> (\<open>None\<close>) on any other truthy value, which has no
  callable \<^verbatim>\<open>includes\<close>.
\<close>

definition image_step :: "json \<Rightarrow> profileInfo \<Rightarrow> profileInfo option" where
  "image_step obj result =
     (case get_prop obj ''bk.components.Image'' of
        Some img \<Rightarrow>
          if truthy img then
            (case get_prop img ''url'' of
               Some url \<Rightarrow>
                 if truthy url then
                   (case url of
                      JStr s \<Rightarrow> Some (if str_includes s ''cdninstagram.com''
                                       then result\<lparr>profileImage := Some url\<rparr> else result)
                    | JArr xs \<Rightarrow> Some (if JStr ''cdninstagram.com'' \<in> set xs
                                        then result\<lparr>profileImage := Some url\<rparr> else result)
                    | _ \<Rightarrow> None)
                 else Some result
             | None \<Rightarrow> Some result)
          else Some result
      | None \<Rightarrow> Some result)"

subsection \<open>The walk\<close>

definition node_step :: "json \<Rightarrow> profileInfo \<Rightarrow> profileInfo option" where
  "node_step obj result =
     (case rich_step obj (text_step obj (init_counters result)) of
        None \<Rightarrow> None
      | Some r \<Rightarrow> image_step obj r)"

text \<open>
  \<^verbatim>\<open>extractProfileInfo\<close>, with the record passed along; \<open>None\<close> when something threw,
  which \<^verbatim>\<open>parseProfileResponse\<close> catches.
\<close>

function (sequential) extractProfileInfo :: "json \<Rightarrow> profileInfo \<Rightarrow> profileInfo option"
  and profile_values :: "json list \<Rightarrow> profileInfo \<Rightarrow> profileInfo option"
  and profile_items :: "json list \<Rightarrow> profileInfo \<Rightarrow> profileInfo option" where
  "extractProfileInfo (JObj kvs) result =
     (case node_step (JObj kvs) result of
        None \<Rightarrow> None
      | Some r \<Rightarrow> profile_values (map snd kvs) r)"
| "extractProfileInfo (JArr xs) result =
     (case node_step (JArr xs) result of
        None \<Rightarrow> None
      | Some r \<Rightarrow> profile_values xs r)"
| "extractProfileInfo v result = Some result"
| "profile_values [] result = Some result"
| "profile_values (JArr items # vs) result =
     (case profile_items items result of
        None \<Rightarrow> None
      | Some r \<Rightarrow> profile_values vs r)"
| "profile_values (JObj kvs # vs) result =
     (case extractProfileInfo (JObj kvs) result of
        None \<Rightarrow> None
      | Some r \<Rightarrow> profile_values vs r)"
| "profile_values (v # vs) result = profile_values vs result"
| "profile_items [] result = Some result"
| "profile_items (item # items) result =
     (case extractProfileInfo item result of
        None \<Rightarrow> None
      | Some r \<Rightarrow> profile_items items r)"
  by pat_completeness auto

termination
proof (relation "measure (\<lambda>x. case x of
           Inl (j, r) \<Rightarrow> 2 * size j
         | Inr (Inl (vs, r)) \<Rightarrow> 2 * size_list size vs + 1
         | Inr (Inr (items, r)) \<Rightarrow> 2 * size_list size items + 1)", goal_cases)
  case (2 kvs result r)
  have "size_list size (map snd kvs) \<le> size_list (size_prod (\<lambda>_. 0) size) kvs"
    by (induction kvs) auto
  then show ?case by simp
qed auto

text \<open>\<^verbatim>\<open>parseProfileResponse\<close>; \<^verbatim>\<open>null\<close> is \<open>None\<close>.\<close>

definition parseProfileResponse :: "(string \<Rightarrow> json option) \<Rightarrow> string \<Rightarrow> profileInfo option" where
  "parseProfileResponse parse responseText =
     (case parse (strip_guard responseText) of
        None \<Rightarrow> None
      | Some data \<Rightarrow> extractProfileInfo data empty_profile)"

section \<open>Emission of profile records\<close>

text \<open>
  What the code does that the page can observe, in order: custom events dispatched on
  the window, and the two steps of consuming a response body.
\<close>

datatype dom_event = ProfileExtracted profileInfo | RateLimited

datatype effect = ReadBody | ParseBody | Dispatch dom_event

text \<open>The three \<^verbatim>\<open>delete\<close> statements.\<close>

definition delete_bookkeeping :: "profileInfo \<Rightarrow> profileInfo" where
  "delete_bookkeeping p = p\<lparr>lastLabelIndex := Absent, labelCount := None, valueCount := None\<rparr>"

text \<open>\<^verbatim>\<open>profileInfo.username\<close> as a condition.\<close>

definition has_username :: "profileInfo \<Rightarrow> bool" where
  "has_username p = (case username p of Some u \<Rightarrow> u \<noteq> [] | None \<Rightarrow> False)"

text \<open>
  The passive observers: the tail of the fetch hook and the second load handler of the
  XHR hook, for the response text of a request to \<open>url\<close>.
\<close>

definition emit_parsed :: "(string \<Rightarrow> json option) \<Rightarrow> string \<Rightarrow> dom_event list" where
  "emit_parsed parse text =
     (case parseProfileResponse parse text of
        Some profile \<Rightarrow>
          if has_username profile then [ProfileExtracted (delete_bookkeeping profile)] else []
      | None \<Rightarrow> [])"

definition fetch_profile_hook :: "(string \<Rightarrow> json option) \<Rightarrow> string \<Rightarrow> string \<Rightarrow> dom_event list" where
  "fetch_profile_hook parse url text =
     (if str_includes url ''about_this_profile_async_action'' then emit_parsed parse text else [])"

definition xhr_profile_hook :: "(string \<Rightarrow> json option) \<Rightarrow> string \<Rightarrow> string \<Rightarrow> dom_event list" where
  "xhr_profile_hook parse xhrUrl responseText =
     (if xhrUrl \<noteq> [] \<and> str_includes xhrUrl ''about_this_profile_async_action''
      then emit_parsed parse responseText else [])"

section \<open>Active profile fetcher\<close>

text \<open>
  What \<^verbatim>\<open>originalFetch\<close> comes back with: a rejection, or a response with its status and
  its body text (\<open>None\<close> when reading the body rejects).
\<close>

datatype response = NetworkError | Response nat "string option"

text \<open>
  The loop over \<^verbatim>\<open>userIdMap.entries()\<close>: the first username, in insertion order, whose
  stored identifier is strictly equal to \<^verbatim>\<open>String(targetUserId)\<close>.
\<close>

definition resolve_username :: "(string \<times> json) list \<Rightarrow> json option \<Rightarrow> string option" where
  "resolve_username m targetUserId =
     map_option fst (find (\<lambda>(uname, uid). uid = JStr (string_of targetUserId)) m)"

text \<open>
  \<^verbatim>\<open>fetchProfileInfo\<close>, from the check of the session tokens on. \<open>haveTokens\<close> says
  whether \<^verbatim>\<open>sessionTokens\<close> is set; the request body built from the tokens has no part in
  what follows the response. \<open>targetUserId\<close> is \<open>None\<close> when the caller passed
  \<^verbatim>\<open>undefined\<close>.
\<close>

definition fetchProfileInfo :: "(string \<Rightarrow> json option) \<Rightarrow> (string \<times> json) list \<Rightarrow> bool \<Rightarrow> json option \<Rightarrow> response \<Rightarrow> fetch_result \<times> effect list" where
  "fetchProfileInfo parse m haveTokens targetUserId resp =
     (if \<not> haveTokens then (ResultNull, [])
      else (case resp of
              NetworkError \<Rightarrow> (ResultNull, [])
            | Response status body \<Rightarrow>
                if status = 429 then (ResultRateLimited, [Dispatch RateLimited])
                else (case body of
                        None \<Rightarrow> (ResultNull, [ReadBody])
                      | Some text \<Rightarrow>
                          (case parseProfileResponse parse text of
                             None \<Rightarrow> (ResultNull, [ReadBody, ParseBody])
                           | Some parsed \<Rightarrow>
                               (let resolved =
                                      (if \<not> has_username parsed
                                       then (case resolve_username m targetUserId of
                                               Some uname \<Rightarrow> parsed\<lparr>username := Some uname\<rparr>
                                             | None \<Rightarrow> parsed)
                                       else parsed)
                                in if has_username resolved \<or> truthy_opt (joined resolved)
                                      \<or> truthy_opt (location resolved)
                                   then (let stripped = delete_bookkeeping resolved;
                                             final =
                                               (if \<not> has_username stripped
                                                then stripped\<lparr>username := Some (''user_'' @ string_of targetUserId),
                                                              userIdOnly := True\<rparr>
                                                else stripped)
                                         in (ResultProfile final,
                                             [ReadBody, ParseBody, Dispatch (ProfileExtracted final)]))
                                   else (ResultNull, [ReadBody, ParseBody]))))))"

section \<open>Message handlers for the content script\<close>

text \<open>
  \<^verbatim>\<open>userIdMap.get(username) || null\<close>. The keys of the map are strings, so a
  \<^verbatim>\<open>username\<close> that is not a string finds nothing.
\<close>

definition lookup_or_null :: "(string \<times> json) list \<Rightarrow> json option \<Rightarrow> json" where
  "lookup_or_null m uname =
     (case uname of
        Some (JStr u) \<Rightarrow>
          (case map_get m u of Some v \<Rightarrow> if truthy v then v else JNull | None \<Rightarrow> JNull)
      | _ \<Rightarrow> JNull)"

text \<open>
  The second \<^verbatim>\<open>message\<close> listener, on an event whose \<^verbatim>\<open>source\<close> is the window itself or
  not and whose \<^verbatim>\<open>data\<close> is \<open>data\<close>. \<open>resp\<close> is what the network gives back should a
  profile fetch be asked for. The result is the dispatched events and the new state.
\<close>

definition message_listener :: "(string \<Rightarrow> json option) \<Rightarrow> bool \<Rightarrow> response \<Rightarrow> state \<Rightarrow> bool \<Rightarrow> json \<Rightarrow> effect list \<times> state" where
  "message_listener parse haveTokens resp st sourceIsWindow data =
     (if \<not> sourceIsWindow then ([], st)
      else
        (let st1 =
               (if get_prop data ''type'' = Some (JStr ''threads-userid-request'')
                then st\<lparr>posted := posted st @
                          [UserIdResponse (get_prop data ''requestId'')
                             (lookup_or_null (userIdMap st) (get_prop data ''username''))]\<rparr>
                else st)
         in if get_prop data ''type'' = Some (JStr ''threads-fetch-request'')
            then (let (result, effects) =
                        fetchProfileInfo parse (userIdMap st1) haveTokens
                          (get_prop data ''userId'') resp
                  in (effects,
                      st1\<lparr>posted := posted st1 @
                             [FetchResponse (get_prop data ''requestId'') result]\<rparr>))
            else ([], st1)))"

section \<open>Notions for stating the properties\<close>

text \<open>
  A candidate pair as \<^verbatim>\<open>extractUserIds\<close> accepts it: both fields truthy, the string of
  the identifier all digits, the string of the username matching \<^verbatim>\<open>[\w.]+\<close>.
\<close>

definition valid_pair :: "json \<Rightarrow> json \<Rightarrow> bool" where
  "valid_pair i u = (truthy i \<and> truthy u \<and> all_digits (js_String i) \<and> valid_username (js_String u))"

text \<open>
  The pairs found at one node, as username and identifier strings: by \<^verbatim>\<open>id\<close>, by \<^verbatim>\<open>pk\<close>,
  and by a nested \<^verbatim>\<open>user\<close> object, where \<^verbatim>\<open>pk\<close> goes before \<^verbatim>\<open>id\<close>.
\<close>

definition id_pair :: "json \<Rightarrow> (string \<times> string) list" where
  "id_pair obj = (case (get_prop obj ''id'', get_prop obj ''username'') of
      (Some i, Some u) \<Rightarrow> if valid_pair i u then [(js_String u, js_String i)] else []
    | _ \<Rightarrow> [])"

definition pk_pair :: "json \<Rightarrow> (string \<times> string) list" where
  "pk_pair obj = (case (get_prop obj ''pk'', get_prop obj ''username'') of
      (Some i, Some u) \<Rightarrow> if valid_pair i u then [(js_String u, js_String i)] else []
    | _ \<Rightarrow> [])"

definition nested_pair :: "json \<Rightarrow> (string \<times> string) list" where
  "nested_pair obj = (case get_prop obj ''user'' of
      Some user \<Rightarrow>
        if truthy user \<and> typeof_object user
           \<and> all_digits (string_or_empty (js_or (get_prop user ''pk'') (get_prop user ''id'')))
           \<and> valid_username (string_or_empty (get_prop user ''username''))
        then [(string_or_empty (get_prop user ''username''),
               string_or_empty (js_or (get_prop user ''pk'') (get_prop user ''id'')))]
        else []
    | None \<Rightarrow> [])"

definition node_pairs :: "json \<Rightarrow> (string \<times> string) list" where
  "node_pairs obj = id_pair obj @ pk_pair obj @ nested_pair obj"

text \<open>\<^verbatim>\<open>addUserId\<close> called on each pair of a list in turn.\<close>

fun add_all :: "state \<Rightarrow> (string \<times> string) list \<Rightarrow> state" where
  "add_all st [] = st"
| "add_all st ((u, i) # ps) = add_all (snd (addUserId st u i)) ps"

text \<open>
  The objects and arrays \<^verbatim>\<open>extractUserIds\<close> is called on during a walk, in the order of
  the calls; \<^verbatim>\<open>extractProfileInfo\<close> recurses in the same way.
\<close>

function (sequential) visited :: "json \<Rightarrow> json list"
  and visited_values :: "json list \<Rightarrow> json list"
  and visited_items :: "json list \<Rightarrow> json list" where
  "visited (JObj kvs) = JObj kvs # visited_values (map snd kvs)"
| "visited (JArr xs) = JArr xs # visited_values xs"
| "visited v = []"
| "visited_values [] = []"
| "visited_values (JArr items # vs) = visited_items items @ visited_values vs"
| "visited_values (JObj kvs # vs) = visited (JObj kvs) @ visited_values vs"
| "visited_values (v # vs) = visited_values vs"
| "visited_items [] = []"
| "visited_items (item # items) = visited item @ visited_items items"
  by pat_completeness auto
termination
proof (relation "measure (\<lambda>x. case x of
           Inl j \<Rightarrow> 2 * size j
         | Inr (Inl vs) \<Rightarrow> 2 * size_list size vs + 1
         | Inr (Inr items) \<Rightarrow> 2 * size_list size items + 1)", goal_cases)
  case (2 kvs)
  have "size_list size (map snd kvs) \<le> size_list (size_prod (\<lambda>_. 0) size) kvs"
    by (induction kvs) auto
  then show ?case by simp
qed auto

text \<open>All the objects of a tree, at any depth.\<close>

fun objects_in :: "json \<Rightarrow> json list" where
  "objects_in (JObj kvs) = JObj kvs # concat (map (\<lambda>kv. objects_in (snd kv)) kvs)"
| "objects_in (JArr xs) = concat (map objects_in xs)"
| "objects_in v = []"

text \<open>The pairs found at the nodes of a list, in order.\<close>

definition pairs_of :: "json list \<Rightarrow> (string \<times> string) list" where
  "pairs_of nodes = concat (map node_pairs nodes)"

text \<open>
  Everything that can reach \<^verbatim>\<open>userIdMap\<close> or the timer after the script has been
  injected: a call of \<^verbatim>\<open>addUserId\<close> (the page scans make nothing else of what they find),
  a call of \<^verbatim>\<open>extractUserIds\<close>, a response seen by the fetch hook or by the XHR hook, a
  \<^verbatim>\<open>message\<close> event, which both listeners receive, and the passing of time.
\<close>

datatype operation =
    OpAddUserId string string
  | OpExtractUserIds json
  | OpFetchResponse string string
  | OpXhrLoad string string
  | OpMessage bool response bool json
  | OpClock nat

fun apply_operation :: "(string \<Rightarrow> json option) \<Rightarrow> (string \<Rightarrow> string option) \<Rightarrow> state \<Rightarrow> operation \<Rightarrow> state" where
  "apply_operation parse unq st (OpAddUserId uname userId) = snd (addUserId st uname userId)"
| "apply_operation parse unq st (OpExtractUserIds obj) = extractUserIds st obj"
| "apply_operation parse unq st (OpFetchResponse url text) = fetch_mine parse unq st url text"
| "apply_operation parse unq st (OpXhrLoad xhrUrl responseText) = xhr_mine parse unq st xhrUrl responseText"
| "apply_operation parse unq st (OpMessage haveTokens resp sourceIsWindow data) =
     snd (message_listener parse haveTokens resp (cache_listener st data) sourceIsWindow data)"
| "apply_operation parse unq st (OpClock t) = advance t st"

definition run_operations :: "(string \<Rightarrow> json option) \<Rightarrow> (string \<Rightarrow> string option) \<Rightarrow> state \<Rightarrow> operation list \<Rightarrow> state" where
  "run_operations parse unq st ops = foldl (apply_operation parse unq) st ops"

text \<open>
  The pair one entry of a bulk route payload yields, and whether the entry makes the
  loop throw.
\<close>

definition route_pair :: "(string \<Rightarrow> string option) \<Rightarrow> string \<times> json \<Rightarrow> (string \<times> string) list" where
  "route_pair unq entry =
     (case route_username (decode_key unq (fst entry)) of
        None \<Rightarrow> []
      | Some uname \<Rightarrow>
          (case js_or (view_user_id (snd entry) ''rootView'') (view_user_id (snd entry) ''hostableView'') of
             Some userId \<Rightarrow> if truthy userId then [(uname, js_String userId)] else []
           | None \<Rightarrow> []))"

definition route_throws :: "(string \<Rightarrow> string option) \<Rightarrow> string \<times> json \<Rightarrow> bool" where
  "route_throws unq entry = (route_username (decode_key unq (fst entry)) \<noteq> None \<and> snd entry = JNull)"

text \<open>Every entry of the first state's map is still there, unchanged, in the second.\<close>

definition keeps :: "state \<Rightarrow> state \<Rightarrow> bool" where
  "keeps st st' = (\<forall>u v. map_get (userIdMap st) u = Some v \<longrightarrow> map_get (userIdMap st') u = Some v)"

text \<open>A record with none of the three bookkeeping properties.\<close>

definition no_bookkeeping :: "profileInfo \<Rightarrow> bool" where
  "no_bookkeeping p = (labelCount p = None \<and> valueCount p = None \<and> lastLabelIndex p = Absent)"

text \<open>
  A text component with a style and a text, and a rich text component whose children
  are text spans with the given fragments: the shapes the parser looks for.
\<close>

definition text_node :: "string \<Rightarrow> json \<Rightarrow> json" where
  "text_node style text =
     JObj [(''bk.components.Text'', JObj [(''text'', text), (''text_style'', JStr style)])]"

definition rich_node :: "string list \<Rightarrow> json" where
  "rich_node fragments =
     JObj [(''bk.components.RichText'',
            JObj [(''children'',
                   JArr (map (\<lambda>f. JObj [(''bk.components.TextSpan'', JObj [(''text'', JStr f)])])
                             fragments))])]"

text \<open>
  A route descriptor with the identifier under the given view, and a bulk route payload
  with the given routes.
\<close>

definition route_descriptor :: "string \<Rightarrow> json \<Rightarrow> json" where
  "route_descriptor view userId =
     JObj [(''result'', JObj [(''exports'', JObj [(view, JObj [(''props'',
             JObj [(''user_id'', userId)])])])])]"

definition bulk_payload :: "(string \<times> json) list \<Rightarrow> json" where
  "bulk_payload routes = JObj [(''payload'', JObj [(''payloads'', JObj routes)])]"

text \<open>
  A burst of discoveries after one made at time \<open>prev\<close>: each comes less than a second
  after the one before. The names of a burst are new when they differ from one another,
  are neither in the map nor pending, and none is \<^verbatim>\<open>__proto__\<close>.
\<close>

fun gaps_under_second :: "nat \<Rightarrow> (nat \<times> string \<times> string) list \<Rightarrow> bool" where
  "gaps_under_second prev [] = True"
| "gaps_under_second prev ((t, uname, userId) # rest) =
     (prev \<le> t \<and> t < prev + 1000 \<and> gaps_under_second t rest)"

definition new_names :: "state \<Rightarrow> (nat \<times> string \<times> string) list \<Rightarrow> bool" where
  "new_names st es =
     (distinct (map (\<lambda>e. fst (snd e)) es)
      \<and> (\<forall>e \<in> set es. \<not> map_has (userIdMap st) (fst (snd e)) \<and> fst (snd e) \<noteq> ''__proto__''
                        \<and> map_of (pendingNewUserIds st) (fst (snd e)) = None))"

text \<open>
  \<^verbatim>\<open>extractProfileInfo\<close> makes the same calls in the same order, so its walk of a tree is
  the steps of the visited nodes, one after the other, until one throws.
\<close>

fun walk_steps :: "json list \<Rightarrow> profileInfo \<Rightarrow> profileInfo option" where
  "walk_steps [] result = Some result"
| "walk_steps (node # nodes) result =
     (case node_step node result of
        None \<Rightarrow> None
      | Some r \<Rightarrow> walk_steps nodes r)"

text \<open>
  What the text branch reads of a node: the \<^verbatim>\<open>text\<close> and the \<^verbatim>\<open>text_style\<close> of a truthy
  \<^verbatim>\<open>bk.components.Text\<close>. A label is a node with the semibold style and a truthy text, a
  value one with the normal style and a truthy text.
\<close>

definition text_of :: "json \<Rightarrow> json option" where
  "text_of obj =
     (case get_prop obj ''bk.components.Text'' of
        Some textComp \<Rightarrow> if truthy textComp then get_prop textComp ''text'' else None
      | None \<Rightarrow> None)"

definition style_of :: "json \<Rightarrow> json option" where
  "style_of obj =
     (case get_prop obj ''bk.components.Text'' of
        Some textComp \<Rightarrow> if truthy textComp then get_prop textComp ''text_style'' else None
      | None \<Rightarrow> None)"

definition is_label :: "json \<Rightarrow> bool" where
  "is_label obj = (style_of obj = Some (JStr ''semibold'') \<and> truthy_opt (text_of obj))"

definition is_value :: "json \<Rightarrow> bool" where
  "is_value obj = (style_of obj = Some (JStr ''normal'') \<and> truthy_opt (text_of obj))"

text \<open>
  What the rich text branch reads of a node: the concatenated text of a truthy
  \<^verbatim>\<open>bk.components.RichText\<close> whose children can be read. The username a text gives is
  the second group of pattern 1, else that of pattern 2, else the group of pattern 3;
  the display name it gives is the trimmed first group of pattern 1, else that of
  pattern 2, else, when pattern 3 matches, the trimmed name before \<^verbatim>\<open>(@\<close> if there is one.
\<close>

definition rich_text :: "json \<Rightarrow> string option" where
  "rich_text obj =
     (case get_prop obj ''bk.components.RichText'' of
        Some richText \<Rightarrow>
          if truthy richText
          then (case children_of richText of Some children \<Rightarrow> full_text children | None \<Rightarrow> None)
          else None
      | None \<Rightarrow> None)"

definition matched_username :: "string \<Rightarrow> string option" where
  "matched_username fullText =
     (case pattern1 fullText of
        Some (g1, g2) \<Rightarrow> Some g2
      | None \<Rightarrow> (case pattern2 fullText of Some (g1, g2) \<Rightarrow> Some g2 | None \<Rightarrow> pattern3 fullText))"

definition matched_name :: "string \<Rightarrow> string option" where
  "matched_name fullText =
     (case pattern1 fullText of
        Some (g1, g2) \<Rightarrow> Some (trim g1)
      | None \<Rightarrow>
          (case pattern2 fullText of
             Some (g1, g2) \<Rightarrow> Some (trim g1)
           | None \<Rightarrow>
               (case pattern3 fullText of
                  Some g1 \<Rightarrow> map_option trim (name_pattern fullText)
                | None \<Rightarrow> None)))"

definition node_username :: "json \<Rightarrow> string option" where
  "node_username obj = (case rich_text obj of Some fullText \<Rightarrow> matched_username fullText | None \<Rightarrow> None)"

definition node_name :: "json \<Rightarrow> string option" where
  "node_name obj = (case rich_text obj of Some fullText \<Rightarrow> matched_name fullText | None \<Rightarrow> None)"

text \<open>
  The state of the counters after \<open>c\<close> labels: the pending label, if any, is the last one
  counted, the joined date is unset before the second label and while that label is
  pending, and the location is unset before the third label and while that one is pending.
\<close>

definition counters_ok :: "profileInfo \<Rightarrow> nat \<Rightarrow> bool" where
  "counters_ok r c =
     (labelCount r = Some c
      \<and> (case lastLabelIndex r of Index k \<Rightarrow> k = c \<and> 0 < k | _ \<Rightarrow> True)
      \<and> (c < 2 \<longrightarrow> joined r = None) \<and> (lastLabelIndex r = Index 2 \<longrightarrow> joined r = None)
      \<and> (c < 3 \<longrightarrow> location r = None) \<and> (lastLabelIndex r = Index 3 \<longrightarrow> location r = None))"

section \<open>Properties of the identity map\<close>

lemma add_all_append: "add_all st (ps @ qs) = add_all (add_all st ps) qs"
  by (induction ps arbitrary: st) auto

lemma check_id_pairs: "check_id st obj = add_all st (id_pair obj)"
  by (auto simp: check_id_def id_pair_def valid_pair_def Let_def split: option.splits)

lemma check_pk_pairs: "check_pk st obj = add_all st (pk_pair obj)"
  by (auto simp: check_pk_def pk_pair_def valid_pair_def Let_def split: option.splits)

lemma check_nested_pairs: "check_nested st obj = add_all st (nested_pair obj)"
  by (auto simp: check_nested_def nested_pair_def Let_def split: option.splits)

lemma node_checks_pairs: "node_checks st obj = add_all st (node_pairs obj)"
  by (simp add: node_checks_def node_pairs_def add_all_append check_id_pairs check_pk_pairs check_nested_pairs)

lemma pairs_of_simps [simp]: "pairs_of [] = []" "pairs_of (n # ns) = node_pairs n @ pairs_of ns"
  "pairs_of (ms @ ns) = pairs_of ms @ pairs_of ns"
  by (simp_all add: pairs_of_def)

lemma extract_visited:
  "extractUserIds st t = add_all st (pairs_of (visited t))"
  "extract_values st vs = add_all st (pairs_of (visited_values vs))"
  "extract_items st items = add_all st (pairs_of (visited_items items))"
  by (induction st t and st vs and st items rule: extractUserIds_extract_values_extract_items.induct)
     (simp_all add: add_all_append node_checks_pairs)

lemma map_get_map_set_new:
  "\<not> map_has m k \<Longrightarrow> map_get (map_set m k v) k' = (if k' = k then Some v else map_get m k')"
  by (auto simp: map_set_def map_get_def map_has_def map_add_def split: option.splits)

lemma keys_map_set_new: "\<not> map_has m k \<Longrightarrow> map fst (map_set m k v) = map fst m @ [k]"
  by (simp add: map_set_def)

lemma map_has_keys: "map_has m k \<longleftrightarrow> k \<in> set (map fst m)"
  by (simp add: map_has_def map_of_eq_None_iff)

lemma map_has_get: "map_has m k \<longleftrightarrow> map_get m k \<noteq> None"
  by (simp add: map_has_def map_get_def)

lemma userIdMap_addUserId:
  "map_get (userIdMap (snd (addUserId st u i))) k =
     (case map_get (userIdMap st) k of
        Some v \<Rightarrow> Some v
      | None \<Rightarrow> if k = u then Some (JStr i) else None)"
  by (auto simp: addUserId_def broadcastNewUserIds_def map_get_map_set_new map_has_get
           split: option.splits)

lemma userIdMap_add_all:
  "map_get (userIdMap (add_all st ps)) k =
     (case map_get (userIdMap st) k of
        Some v \<Rightarrow> Some v
      | None \<Rightarrow> map_option JStr (map_of ps k))"
  by (induction st ps rule: add_all.induct)
     (auto simp: userIdMap_addUserId split: option.splits)

lemma distinct_addUserId:
  "distinct (map fst (userIdMap st)) \<Longrightarrow> distinct (map fst (userIdMap (snd (addUserId st u i))))"
  by (auto simp: addUserId_def broadcastNewUserIds_def keys_map_set_new map_has_keys)

lemma distinct_add_all:
  "distinct (map fst (userIdMap st)) \<Longrightarrow> distinct (map fst (userIdMap (add_all st ps)))"
  by (induction st ps rule: add_all.induct) (auto simp: distinct_addUserId)

lemma add_all_known:
  "\<forall>p \<in> set ps. map_has (userIdMap st) (fst p) \<Longrightarrow> add_all st ps = st"
  by (induction st ps rule: add_all.induct) (auto simp: addUserId_def)

lemma add_all_idem: "add_all (add_all st ps) ps = add_all st ps"
proof (rule add_all_known, rule ballI)
  fix p assume "p \<in> set ps"
  then have "map_of ps (fst p) \<noteq> None"
    by (metis map_of_eq_None_iff image_eqI)
  then show "map_has (userIdMap (add_all st ps)) (fst p)"
    by (auto simp: map_has_get userIdMap_add_all split: option.splits)
qed

lemma objects_visited:
  "set (objects_in t) \<subseteq> set (visited t)"
  "set (concat (map objects_in vs)) \<subseteq> set (visited_values vs)"
  "set (concat (map objects_in items)) \<subseteq> set (visited_items items)"
proof (induction t and vs and items rule: visited_visited_values_visited_items.induct)
  case (1 kvs)
  then show ?case by (auto simp: comp_def)
qed auto

lemma route_loop_pairs:
  "route_loop unq st entries =
     (\<exists>e \<in> set entries. route_throws unq e,
      add_all st (concat (map (route_pair unq) (takeWhile (\<lambda>e. \<not> route_throws unq e) entries))))"
proof (induction unq st entries rule: route_loop.induct)
  case (1 unq st)
  then show ?case by simp
next
  case (2 unq st routeKey routeData rest)
  then show ?case
    by (auto simp: route_pair_def route_throws_def split: option.splits)
qed

lemma keeps_refl: "keeps st st"
  by (simp add: keeps_def)

lemma keeps_trans: "keeps a b \<Longrightarrow> keeps b c \<Longrightarrow> keeps a c"
  by (simp add: keeps_def)

lemma keeps_same: "userIdMap st' = userIdMap st \<Longrightarrow> keeps st st'"
  by (simp add: keeps_def)

lemma keeps_add_all: "keeps st (add_all st ps)"
  by (simp add: keeps_def userIdMap_add_all)

lemma keeps_addUserId: "keeps st (snd (addUserId st u i))"
  by (simp add: keeps_def userIdMap_addUserId)

lemma keeps_extractUserIds: "keeps st (extractUserIds st t)"
  by (simp add: extract_visited keeps_add_all)

lemma keeps_route_loop: "keeps st (snd (route_loop unq st entries))"
  by (simp add: route_loop_pairs keeps_add_all)

lemma keeps_bulk_routes: "keeps st (snd (bulk_routes unq st data))"
  by (auto simp: bulk_routes_def keeps_refl keeps_route_loop split: option.splits)

lemma keeps_fetch_mine: "keeps st (fetch_mine parse unq st url text)"
proof -
  have step: "keeps st (let (threw, st1) = r in if threw then st1 else extractUserIds st1 data)"
    if "keeps st (snd r)" for r data
  proof (cases r)
    case (Pair threw st1)
    with that have "keeps st st1" by simp
    moreover have "keeps st1 (extractUserIds st1 data)" by (rule keeps_extractUserIds)
    ultimately show ?thesis using Pair by (auto intro: keeps_trans)
  qed
  have "keeps st (snd (if str_includes url ''bulk-route-definitions''
                       then bulk_routes unq st data else (False, st)))" for data
    by (simp add: keeps_bulk_routes keeps_refl)
  from step [OF this] show ?thesis
    by (simp add: fetch_mine_def Let_def keeps_refl split: option.splits)
qed

lemma keeps_xhr_mine: "keeps st (xhr_mine parse unq st url text)"
  by (auto simp: xhr_mine_def keeps_refl keeps_bulk_routes split: option.splits)

lemma keeps_load_entries: "keeps st (load_entries st entries)"
proof (induction st entries rule: load_entries.induct)
  case (1 st)
  then show ?case by (simp add: keeps_refl)
next
  case (2 st uname userId rest)
  have "keeps st (st\<lparr>userIdMap := map_set (userIdMap st) uname userId\<rparr>)"
    if "\<not> map_has (userIdMap st) uname"
    using that by (auto simp: keeps_def map_get_map_set_new map_has_get)
  with 2 show ?case
    by (auto intro: keeps_trans)
qed

lemma keeps_cache_listener: "keeps st (cache_listener st data)"
  by (auto simp: cache_listener_def keeps_refl keeps_load_entries split: option.splits json.splits)

lemma keeps_advance: "keeps st (advance t st)"
  by (auto simp: advance_def broadcast_callback_def keeps_def split: option.splits)

lemma keeps_message_listener: "keeps st (snd (message_listener parse haveTokens resp st w data))"
  by (auto simp: message_listener_def Let_def keeps_def split: prod.splits)

lemma keeps_apply_operation: "keeps st (apply_operation parse unq st op)"
proof (cases op)
  case (OpMessage haveTokens resp w data)
  then show ?thesis
    using keeps_cache_listener keeps_message_listener keeps_trans by (metis apply_operation.simps(5))
qed (simp_all add: keeps_addUserId keeps_extractUserIds keeps_fetch_mine keeps_xhr_mine keeps_advance)

lemma keeps_run_operations: "keeps st (run_operations parse unq st ops)"
  unfolding run_operations_def
proof (induction ops arbitrary: st)
  case Nil
  then show ?case by (simp add: keeps_refl)
next
  case (Cons op ops)
  then show ?case
    using keeps_apply_operation keeps_trans by (metis foldl_Cons)
qed

lemma node_pairs_array: "node_pairs (JArr xs) = []"
  by (simp add: node_pairs_def id_pair_def pk_pair_def nested_pair_def)

lemma visited_objects:
  "\<forall>n \<in> set (visited t). n \<in> set (objects_in t) \<or> (\<exists>xs. n = JArr xs)"
  "\<forall>n \<in> set (visited_values vs). n \<in> set (concat (map objects_in vs)) \<or> (\<exists>xs. n = JArr xs)"
  "\<forall>n \<in> set (visited_items items). n \<in> set (concat (map objects_in items)) \<or> (\<exists>xs. n = JArr xs)"
proof (induction t and vs and items rule: visited_visited_values_visited_items.induct)
  case (1 kvs)
  then show ?case by (auto simp: comp_def)
qed auto

lemma pairs_visited_objects:
  "set (pairs_of (visited t)) = (\<Union>n \<in> set (objects_in t). set (node_pairs n))"
proof (intro equalityI subsetI)
  fix p assume "p \<in> set (pairs_of (visited t))"
  then obtain n where n: "n \<in> set (visited t)" "p \<in> set (node_pairs n)"
    by (auto simp: pairs_of_def)
  from n(2) have "\<nexists>xs. n = JArr xs"
    by (auto simp: node_pairs_array)
  with n(1) visited_objects(1) [of t] have "n \<in> set (objects_in t)"
    by blast
  with n(2) show "p \<in> (\<Union>n \<in> set (objects_in t). set (node_pairs n))"
    by blast
next
  fix p assume "p \<in> (\<Union>n \<in> set (objects_in t). set (node_pairs n))"
  then obtain n where "n \<in> set (objects_in t)" "p \<in> set (node_pairs n)"
    by blast
  with objects_visited(1) [of t] show "p \<in> set (pairs_of (visited t))"
    by (auto simp: pairs_of_def)
qed

lemma filter_key_absent: "k \<notin> fst ` set m \<Longrightarrow> filter (\<lambda>e. fst e = k) m = []"
  by (induction m) auto

lemma one_entry:
  "distinct (map fst m) \<Longrightarrow> k \<in> set (map fst m) \<Longrightarrow> length (filter (\<lambda>e. fst e = k) m) = 1"
  by (induction m) (auto simp: filter_key_absent)

lemma map_of_unique:
  assumes "(k, v) \<in> set ps" and "\<forall>v'. (k, v') \<in> set ps \<longrightarrow> v' = v"
  shows "map_of ps k = Some v"
proof -
  from assms(1) have "k \<in> fst ` set ps" by force
  then have "map_of ps k \<noteq> None" by (simp add: map_of_eq_None_iff)
  then obtain v' where v': "map_of ps k = Some v'" by blast
  then have "(k, v') \<in> set ps" by (rule map_of_SomeD)
  with assms(2) v' show ?thesis by simp
qed

lemmas char_class_defs = all_digits_def valid_username_def is_digit_def is_uname_char_def is_word_def

lemmas identity_defs = addUserId_def broadcastNewUserIds_def map_has_def map_get_def map_set_def
  obj_set_def init_state_def check_id_def check_pk_def check_nested_def node_checks_def
  string_or_empty_def js_or_def truthy_opt_def Let_def

section \<open>C1: what a walk of a tree leaves in the identity map\<close>

text \<open>
  C1, as stated, fails twice. Of two pairs with the same username and different
  identifiers only the first is stored, and a pair whose identifier is the number
  \<^verbatim>\<open>0\<close>, whose string is all digits, is dropped by the truthiness guard.
\<close>

theorem extractUserIds_counterexample:
  "(''bob'', ''2'') \<in> set (node_pairs (JObj [(''id'', JNum ''2''), (''username'', JStr ''bob'')]))
   \<and> map_get (userIdMap (extractUserIds init_state
         (JArr [JObj [(''id'', JNum ''1''), (''username'', JStr ''bob'')],
                JObj [(''id'', JNum ''2''), (''username'', JStr ''bob'')]]))) ''bob''
       = Some (JStr ''1'')
   \<and> all_digits (js_String (JNum ''0'')) \<and> valid_username (js_String (JStr ''al''))
   \<and> userIdMap (extractUserIds init_state (JObj [(''id'', JNum ''0''), (''username'', JStr ''al'')]))
       = []"
  by code_simp

text \<open>
  C1, amended. Let a pair be found at an object anywhere in a tree: by \<^verbatim>\<open>id\<close> and
  \<^verbatim>\<open>username\<close>, by \<^verbatim>\<open>pk\<close> and \<^verbatim>\<open>username\<close>, or through a nested \<^verbatim>\<open>user\<close> object, with both
  fields truthy, the string of the identifier all digits and the string of the username
  matching \<^verbatim>\<open>[\w.]+\<close>. After \<^verbatim>\<open>extractUserIds\<close> has walked the tree the username is a key of
  the map and has exactly one entry. Its value is what the map held for it before the
  walk or, failing that, the identifier of the first pair with that username in the
  order of the walk: the pair's own identifier when the tree gives the username no
  other. Walking the same tree a second time changes nothing in the state.
\<close>

theorem extractUserIds_found_pairs:
  assumes "node \<in> set (objects_in tree)"
    and "(u, i) \<in> set (node_pairs node)"
    and "distinct (map fst (userIdMap st))"
  shows "map_get (userIdMap (extractUserIds st tree)) u =
           (case map_get (userIdMap st) u of
              Some v \<Rightarrow> Some v
            | None \<Rightarrow> map_option JStr (map_of (pairs_of (visited tree)) u))
       \<and> map_get (userIdMap (extractUserIds st tree)) u \<noteq> None
       \<and> length (filter (\<lambda>e. fst e = u) (userIdMap (extractUserIds st tree))) = 1
       \<and> (map_get (userIdMap st) u = None \<and>
            (\<forall>n \<in> set (objects_in tree). \<forall>i'. (u, i') \<in> set (node_pairs n) \<longrightarrow> i' = i)
          \<longrightarrow> map_get (userIdMap (extractUserIds st tree)) u = Some (JStr i))
       \<and> extractUserIds (extractUserIds st tree) tree = extractUserIds st tree"
proof -
  let ?ps = "pairs_of (visited tree)"
  let ?m' = "userIdMap (extractUserIds st tree)"
  have run: "extractUserIds st tree = add_all st ?ps"
    by (rule extract_visited)
  have mem: "(u, i) \<in> set ?ps"
    using assms(1,2) by (auto simp: pairs_visited_objects)
  then have some: "map_of ?ps u \<noteq> None"
    by (metis map_of_eq_None_iff image_eqI fst_conv)
  have a: "map_get ?m' u =
           (case map_get (userIdMap st) u of
              Some v \<Rightarrow> Some v
            | None \<Rightarrow> map_option JStr (map_of ?ps u))"
    by (simp add: run userIdMap_add_all)
  have b: "map_get ?m' u \<noteq> None"
    using some by (auto simp: a split: option.splits)
  have "distinct (map fst ?m')"
    using assms(3) by (simp add: run distinct_add_all)
  moreover have "u \<in> set (map fst ?m')"
    using b by (simp add: map_get_def map_of_eq_None_iff)
  ultimately have c: "length (filter (\<lambda>e. fst e = u) ?m') = 1"
    by (rule one_entry)
  have d: "map_get ?m' u = Some (JStr i)"
    if "map_get (userIdMap st) u = None"
      and "\<forall>n \<in> set (objects_in tree). \<forall>i'. (u, i') \<in> set (node_pairs n) \<longrightarrow> i' = i"
  proof -
    from that(2) have "\<forall>i'. (u, i') \<in> set ?ps \<longrightarrow> i' = i"
      by (auto simp: pairs_visited_objects)
    with mem have "map_of ?ps u = Some i" by (rule map_of_unique)
    with that(1) show ?thesis by (simp add: a)
  qed
  have e: "extractUserIds (extractUserIds st tree) tree = extractUserIds st tree"
    by (simp add: extract_visited add_all_idem)
  from a b c d e show ?thesis by blast
qed

theorem extractUserIds_found_pairs_witness:
  "JObj [(''id'', JNum ''1''), (''username'', JStr ''bob'')]
     \<in> set (objects_in
         (JArr [JObj [(''id'', JNum ''1''), (''username'', JStr ''bob'')],
                JObj [(''user'', JObj [(''pk'', JStr ''77''), (''username'', JStr ''carol'')])]]))
   \<and> (''bob'', ''1'') \<in> set (node_pairs (JObj [(''id'', JNum ''1''), (''username'', JStr ''bob'')]))
   \<and> distinct (map fst (userIdMap init_state))
   \<and> map_get (userIdMap (extractUserIds init_state
         (JArr [JObj [(''id'', JNum ''1''), (''username'', JStr ''bob'')],
                JObj [(''user'', JObj [(''pk'', JStr ''77''), (''username'', JStr ''carol'')])]])))
         ''bob'' \<noteq> None
   \<and> length (filter (\<lambda>e. fst e = ''bob'') (userIdMap (extractUserIds init_state
         (JArr [JObj [(''id'', JNum ''1''), (''username'', JStr ''bob'')],
                JObj [(''user'', JObj [(''pk'', JStr ''77''), (''username'', JStr ''carol'')])]]))))
       = 1"
proof -
  let ?node = "JObj [(''id'', JNum ''1''), (''username'', JStr ''bob'')]"
  let ?tree = "JArr [?node,
                     JObj [(''user'', JObj [(''pk'', JStr ''77''), (''username'', JStr ''carol'')])]]"
  have h1: "?node \<in> set (objects_in ?tree)"
    by simp
  have h2: "(''bob'', ''1'') \<in> set (node_pairs ?node)"
    by code_simp
  have h3: "distinct (map fst (userIdMap init_state))"
    by (simp add: init_state_def)
  from extractUserIds_found_pairs [OF h1 h2 h3] h1 h2 h3 show ?thesis
    by blast
qed

section \<open>C2: first writer wins\<close>

text \<open>
  C2. Once a username is mapped to an identifier, nothing that happens later replaces
  the identifier: a call of \<^verbatim>\<open>addUserId\<close> for it returns \<^verbatim>\<open>false\<close> and changes nothing, a
  cache message leaves it as it is, since only absent keys are adopted, and so does any
  sequence of the walks, hooks, listeners and timers built on them. After \<open>(''bob'', ''1'')\<close> an insertion of
  \<open>(''bob'', ''2'')\<close> leaves \<open>''bob''\<close> mapped to \<open>''1''\<close>.
\<close>

theorem userIdMap_first_writer_wins:
  assumes "map_get (userIdMap st) u = Some v"
  shows "addUserId st u userId = (False, st)
       \<and> map_get (userIdMap (cache_listener st data)) u = Some v
       \<and> map_get (userIdMap (run_operations parse unq st ops)) u = Some v"
proof -
  from assms have "addUserId st u userId = (False, st)"
    by (simp add: addUserId_def map_has_get)
  moreover from assms keeps_cache_listener [of st data]
  have "map_get (userIdMap (cache_listener st data)) u = Some v"
    by (simp add: keeps_def)
  moreover from assms keeps_run_operations [of st parse unq ops]
  have "map_get (userIdMap (run_operations parse unq st ops)) u = Some v"
    by (simp add: keeps_def)
  ultimately show ?thesis
    by simp
qed

theorem userIdMap_first_writer_wins_witness:
  "map_get (userIdMap (snd (addUserId init_state ''bob'' ''1''))) ''bob'' = Some (JStr ''1'')
   \<and> map_get (userIdMap (run_operations (\<lambda>t. None) (\<lambda>k. None)
                 (snd (addUserId init_state ''bob'' ''1''))
                 [OpAddUserId ''bob'' ''2'',
                  OpMessage False NetworkError False
                    (JObj [(''type'', JStr ''threads-load-userid-cache''),
                           (''data'', JObj [(''bob'', JStr ''3'')])])])) ''bob''
     = Some (JStr ''1'')"
proof -
  have h: "map_get (userIdMap (snd (addUserId init_state ''bob'' ''1''))) ''bob'' = Some (JStr ''1'')"
    by (simp add: identity_defs)
  from userIdMap_first_writer_wins [OF h, THEN conjunct2, THEN conjunct2] h show ?thesis
    by simp
qed

section \<open>C3: rich text\<close>

subsection \<open>The walk as the steps of the visited nodes\<close>

lemma walk_steps_append:
  "walk_steps (ms @ ns) result =
     (case walk_steps ms result of None \<Rightarrow> None | Some r \<Rightarrow> walk_steps ns r)"
  by (induction ms arbitrary: result) (auto split: option.splits)

lemma walk_visited:
  "extractProfileInfo t result = walk_steps (visited t) result"
  "profile_values vs result = walk_steps (visited_values vs) result"
  "profile_items items result = walk_steps (visited_items items) result"
  by (induction t result and vs result and items result
      rule: extractProfileInfo_profile_values_profile_items.induct)
     (auto simp: walk_steps_append split: option.splits)

subsection \<open>What the patterns match\<close>

lemma paren_at_spaces:
  assumes "\<forall>c \<in> set ws. is_space c" and "valid_username user"
  shows "paren_at (ws @ ''(@'' @ user @ '')'') = Some (user, '')'')"
proof -
  have "dropWhile is_space (ws @ ''(@'' @ user @ '')'') = ''(@'' @ user @ '')''"
    using assms(1) by (simp add: dropWhile_append3 is_space_def)
  moreover have "takeWhile is_uname_char (user @ '')'') = user"
    and "dropWhile is_uname_char (user @ '')'') = '')''"
    using assms(2) by (simp_all add: valid_username_def list_all_iff is_uname_char_def is_word_def)
  ultimately show ?thesis
    using assms(2) by (simp add: paren_at_def valid_username_def)
qed

lemma paren_at_name:
  assumes "\<exists>c \<in> set n. \<not> is_space c" and "\<forall>c \<in> set n. c \<noteq> CHR ''(''"
  shows "paren_at (n @ rest) = None"
proof -
  from assms(1) have "dropWhile is_space n \<noteq> []"
    by (simp add: dropWhile_eq_Nil_conv)
  then obtain d ds where d: "dropWhile is_space n = d # ds"
    by (cases "dropWhile is_space n") auto
  then have "d \<in> set n"
    by (metis list.set_intros(1) set_dropWhileD)
  with assms(2) have "d \<noteq> CHR ''(''" by blast
  moreover have "dropWhile is_space (n @ rest) = d # ds @ rest"
    using assms(1) d by (auto simp: dropWhile_append)
  ultimately show ?thesis
    by (simp add: paren_at_def split: list.splits)
qed

lemma lazy_group_name:
  assumes "n = [] \<or> \<not> is_space (last n)"
    and "\<forall>c \<in> set n. c \<noteq> CHR ''('' \<and> \<not> is_line_terminator c"
    and "\<forall>c \<in> set ws. is_space c" and "valid_username user"
  shows "lazy_group (\<lambda>r. case paren_at r of
                           Some (u, rest) \<Rightarrow> if rest = '')'' then Some u else None
                         | None \<Rightarrow> None) pre (n @ ws @ ''(@'' @ user @ '')'')
         = Some (pre @ n, user)"
  using assms(1,2)
proof (induction n arbitrary: pre)
  case Nil
  have "paren_at (ws @ ''(@'' @ user @ '')'') = Some (user, '')'')"
    using assms(3,4) by (rule paren_at_spaces)
  then show ?case
    by (cases "ws @ ''(@'' @ user @ '')''") simp_all
next
  case (Cons c n)
  from Cons.prems(1) have "\<not> is_space (last (c # n))" by simp
  then have "\<exists>d \<in> set (c # n). \<not> is_space d"
    by (metis last_in_set list.distinct(1))
  moreover from Cons.prems(2) have "\<forall>d \<in> set (c # n). d \<noteq> CHR ''(''" by blast
  ultimately have none: "paren_at ((c # n) @ ws @ ''(@'' @ user @ '')'') = None"
    by (rule paren_at_name)
  from Cons.prems have "n = [] \<or> \<not> is_space (last n)"
    by (cases n) auto
  moreover from Cons.prems(2) have "\<forall>d \<in> set n. d \<noteq> CHR ''('' \<and> \<not> is_line_terminator d"
    by simp
  ultimately have "lazy_group (\<lambda>r. case paren_at r of
                           Some (u, rest) \<Rightarrow> if rest = '')'' then Some u else None
                         | None \<Rightarrow> None) (pre @ [c]) (n @ ws @ ''(@'' @ user @ '')'')
         = Some ((pre @ [c]) @ n, user)"
    by (rule Cons.IH)
  with none Cons.prems(2) show ?case
    by simp
qed

lemma trim_plain:
  assumes "s \<noteq> []" and "\<not> is_space (hd s)" and "\<not> is_space (last s)"
  shows "trim s = s"
proof -
  from assms(1,2) have "dropWhile is_space s = s"
    by (cases s) auto
  moreover from assms(1,3) have "dropWhile is_space (rev s) = rev s"
    by (cases "rev s") (auto simp: last_rev [symmetric] hd_rev)
  ultimately show ?thesis
    by (simp add: trim_def)
qed

lemma pattern1_name_user:
  assumes "name \<noteq> []" and "\<not> is_space (hd name)" and "\<not> is_space (last name)"
    and "\<forall>c \<in> set name. c \<noteq> CHR ''('' \<and> \<not> is_line_terminator c"
    and "\<forall>c \<in> set ws. is_space c" and "valid_username user"
  shows "pattern1 (name @ ws @ ''(@'' @ user @ '')'') = Some (name, user)"
proof -
  from assms(1) obtain c n where name: "name = c # n"
    by (cases name) auto
  with assms(3) have n: "n = [] \<or> \<not> is_space (last n)"
    by (cases n) auto
  from assms(4) name have ok: "\<forall>d \<in> set n. d \<noteq> CHR ''('' \<and> \<not> is_line_terminator d"
    and c: "\<not> is_line_terminator c"
    by simp_all
  from lazy_group_name [OF n ok assms(5,6), of "[c]"] c name show ?thesis
    by (simp add: pattern1_def lazy_match_def)
qed

lemma full_text_spans:
  "full_text (map (\<lambda>f. JObj [(''bk.components.TextSpan'', JObj [(''text'', JStr f)])]) fragments)
     = Some (concat fragments)"
  by (induction fragments) (simp_all add: string_or_empty_def)

lemma labelCount_apply_patterns [simp]:
  "labelCount (apply_patterns fullText result) = labelCount result"
  by (simp add: apply_patterns_def split: option.splits prod.splits)

lemma init_counters_idle: "labelCount result \<noteq> None \<Longrightarrow> init_counters result = result"
  by (auto simp: init_counters_def)

lemma uname_char_plain: "is_uname_char c \<Longrightarrow> c \<noteq> CHR '')'' \<and> c \<noteq> CHR ''('' \<and> c \<noteq> CHR ''@'' \<and> \<not> is_space c"
  by (auto simp: is_uname_char_def is_word_def is_space_def)

lemma takeWhile_user:
  assumes "valid_username user" and "rest = [] \<or> \<not> is_uname_char (hd rest)"
  shows "takeWhile is_uname_char (user @ rest) = user"
    and "dropWhile is_uname_char (user @ rest) = rest"
proof -
  from assms(1) have all: "\<forall>c \<in> set user. is_uname_char c"
    by (simp add: valid_username_def list_all_iff)
  from assms(2) have "takeWhile is_uname_char rest = []" "dropWhile is_uname_char rest = rest"
    by (cases rest; simp)+
  with all show "takeWhile is_uname_char (user @ rest) = user"
    and "dropWhile is_uname_char (user @ rest) = rest"
    by (simp_all add: takeWhile_append2 dropWhile_append2)
qed

lemma paren_at_user:
  assumes "\<forall>c \<in> set ws. is_space c" and "valid_username user"
    and "rest = [] \<or> \<not> is_uname_char (hd rest)"
  shows "paren_at (ws @ ''(@'' @ user @ rest) = Some (user, rest)"
proof -
  have "dropWhile is_space (ws @ ''(@'' @ user @ rest) = ''(@'' @ user @ rest"
    using assms(1) by (simp add: dropWhile_append3 is_space_def)
  with takeWhile_user [OF assms(2,3)] assms(2) show ?thesis
    by (simp add: paren_at_def valid_username_def)
qed

lemma lazy_group_skips:
  assumes fails: "\<And>m rest. \<exists>c \<in> set m. \<not> is_space c \<Longrightarrow> \<forall>c \<in> set m. c \<noteq> CHR ''(''
                    \<Longrightarrow> tail (m @ rest) = None"
    and "n = [] \<or> \<not> is_space (last n)"
    and "\<forall>c \<in> set n. c \<noteq> CHR ''('' \<and> \<not> is_line_terminator c"
    and "tail r0 = Some x"
  shows "lazy_group tail pre (n @ r0) = Some (pre @ n, x)"
  using assms(2,3)
proof (induction n arbitrary: pre)
  case Nil
  from assms(4) show ?case
    by (cases r0) simp_all
next
  case (Cons c n)
  from Cons.prems(1) have "\<not> is_space (last (c # n))" by simp
  then have "\<exists>d \<in> set (c # n). \<not> is_space d"
    by (metis last_in_set list.distinct(1))
  moreover from Cons.prems(2) have "\<forall>d \<in> set (c # n). d \<noteq> CHR ''(''" by blast
  ultimately have none: "tail ((c # n) @ r0) = None"
    by (rule fails)
  from Cons.prems have "n = [] \<or> \<not> is_space (last n)"
    by (cases n) auto
  moreover from Cons.prems(2) have "\<forall>d \<in> set n. d \<noteq> CHR ''('' \<and> \<not> is_line_terminator d"
    by simp
  ultimately have "lazy_group tail (pre @ [c]) (n @ r0) = Some ((pre @ [c]) @ n, x)"
    by (rule Cons.IH)
  with none Cons.prems(2) show ?case
    by simp
qed

lemma lazy_match_skips:
  assumes fails: "\<And>m rest. \<exists>c \<in> set m. \<not> is_space c \<Longrightarrow> \<forall>c \<in> set m. c \<noteq> CHR ''(''
                    \<Longrightarrow> tail (m @ rest) = None"
    and "name \<noteq> []" and "\<not> is_space (last name)"
    and "\<forall>c \<in> set name. c \<noteq> CHR ''('' \<and> \<not> is_line_terminator c"
    and "tail r0 = Some x"
  shows "lazy_match tail (name @ r0) = Some (name, x)"
proof -
  from assms(2) obtain c n where name: "name = c # n"
    by (cases name) auto
  with assms(3) have n: "n = [] \<or> \<not> is_space (last n)"
    by (cases n) auto
  from assms(4) name have ok: "\<forall>d \<in> set n. d \<noteq> CHR ''('' \<and> \<not> is_line_terminator d"
    and c: "\<not> is_line_terminator c"
    by simp_all
  from lazy_group_skips [of tail n r0 x "[c]", OF fails n ok assms(5)] c name show ?thesis
    by (simp add: lazy_match_def)
qed

lemma paren_at_None_tail:
  assumes "\<exists>c \<in> set m. \<not> is_space c" and "\<forall>c \<in> set m. c \<noteq> CHR ''(''"
  shows "(case paren_at (m @ rest) of
            Some (u, rest') \<Rightarrow> if rest' = '')'' then Some u else None
          | None \<Rightarrow> None) = None"
    and "map_option fst (paren_at (m @ rest)) = None"
  using paren_at_name [OF assms] by simp_all

lemma name_tail_None:
  assumes "\<exists>c \<in> set m. \<not> is_space c" and "\<forall>c \<in> set m. c \<noteq> CHR ''(''"
  shows "(case dropWhile is_space (m @ rest) of
            c1 # c2 # r2 \<Rightarrow> if c1 = CHR ''('' \<and> c2 = CHR ''@'' then Some () else None
          | _ \<Rightarrow> None) = None"
proof -
  from assms(1) have "dropWhile is_space m \<noteq> []"
    by (simp add: dropWhile_eq_Nil_conv)
  then obtain d ds where d: "dropWhile is_space m = d # ds"
    by (cases "dropWhile is_space m") auto
  then have "d \<in> set m"
    by (metis list.set_intros(1) set_dropWhileD)
  with assms(2) have "d \<noteq> CHR ''(''" by blast
  moreover have "dropWhile is_space (m @ rest) = d # ds @ rest"
    using assms(1) d by (auto simp: dropWhile_append)
  ultimately show ?thesis
    by (simp split: list.splits)
qed

lemma paren_at_ends:
  assumes "paren_at r = Some (u, rest)"
  shows "\<exists>p. r = p @ rest"
proof -
  from assms obtain r2 where d: "dropWhile is_space r = CHR ''('' # CHR ''@'' # r2"
    and rest: "rest = dropWhile is_uname_char r2"
    by (auto simp: paren_at_def split: list.splits if_splits)
  have "r = takeWhile is_space r @ dropWhile is_space r"
    by simp
  also have "\<dots> = takeWhile is_space r @ ''(@'' @ takeWhile is_uname_char r2 @ rest"
    by (simp add: d rest)
  finally have "r = (takeWhile is_space r @ ''(@'' @ takeWhile is_uname_char r2) @ rest"
    by simp
  then show ?thesis ..
qed

lemma lazy_group_ends_paren:
  assumes "lazy_group (\<lambda>r. case paren_at r of
                             Some (u, rest) \<Rightarrow> if rest = '')'' then Some u else None
                           | None \<Rightarrow> None) pre r = Some x"
  shows "r \<noteq> [] \<and> last r = CHR '')''"
  using assms
proof (induction r arbitrary: pre)
  case Nil
  then show ?case
    by (simp add: paren_at_def split: option.splits)
next
  case (Cons c r)
  show ?case
  proof (cases "paren_at (c # r)")
    case None
    with Cons.prems have "lazy_group (\<lambda>r. case paren_at r of
                             Some (u, rest) \<Rightarrow> if rest = '')'' then Some u else None
                           | None \<Rightarrow> None) (pre @ [c]) r = Some x"
      by (simp split: if_splits)
    from Cons.IH [OF this] show ?thesis by simp
  next
    case (Some a)
    obtain u rest where a: "a = (u, rest)" by (cases a)
    show ?thesis
    proof (cases "rest = '')''")
      case True
      from paren_at_ends [of "c # r" u rest] Some a obtain p where "c # r = p @ rest"
        by auto
      with True show ?thesis
        by (metis last_appendR last_snoc append_Cons append_Nil list.distinct(1))
    next
      case False
      with Cons.prems Some a have "lazy_group (\<lambda>r. case paren_at r of
                             Some (u, rest) \<Rightarrow> if rest = '')'' then Some u else None
                           | None \<Rightarrow> None) (pre @ [c]) r = Some x"
        by (simp split: if_splits)
      from Cons.IH [OF this] show ?thesis by simp
    qed
  qed
qed

lemma pattern1_ends_paren:
  assumes "s = [] \<or> last s \<noteq> CHR '')''"
  shows "pattern1 s = None"
proof (cases s)
  case Nil
  then show ?thesis by (simp add: pattern1_def lazy_match_def)
next
  case (Cons c r)
  show ?thesis
  proof (rule ccontr)
    assume "pattern1 s \<noteq> None"
    then obtain x where x: "pattern1 s = Some x" by auto
    with Cons have r: "lazy_group (\<lambda>r. case paren_at r of
                             Some (u, rest) \<Rightarrow> if rest = '')'' then Some u else None
                           | None \<Rightarrow> None) [c] r = Some x"
      by (simp add: pattern1_def lazy_match_def split: if_splits)
    from lazy_group_ends_paren [OF r] Cons assms show False
      by simp
  qed
qed

lemma pattern2_name_user:
  assumes "name \<noteq> []" and "\<not> is_space (last name)"
    and "\<forall>c \<in> set name. c \<noteq> CHR ''('' \<and> \<not> is_line_terminator c"
    and "\<forall>c \<in> set ws. is_space c" and "valid_username user"
    and "rest = [] \<or> \<not> is_uname_char (hd rest)"
  shows "pattern2 (name @ ws @ ''(@'' @ user @ rest) = Some (name, user)"
proof -
  have "map_option fst (paren_at (ws @ ''(@'' @ user @ rest)) = Some user"
    using paren_at_user [OF assms(4,5,6)] by simp
  with lazy_match_skips [of "\<lambda>r. map_option fst (paren_at r)" name
      "ws @ ''(@'' @ user @ rest" user, OF paren_at_None_tail(2) assms(1,2,3)]
  show ?thesis
    by (simp add: pattern2_def)
qed

lemma no_paren_paren_at:
  assumes "CHR ''('' \<notin> set r"
  shows "paren_at r = None"
proof (cases "dropWhile is_space r")
  case Nil
  then show ?thesis by (simp add: paren_at_def del: dropWhile_eq_Nil_conv)
next
  case (Cons c cs)
  then have "c \<in> set r"
    by (metis list.set_intros(1) set_dropWhileD)
  with assms have "c \<noteq> CHR ''(''" by blast
  with Cons show ?thesis
    by (simp add: paren_at_def split: list.splits)
qed

lemma no_paren_name_tail:
  assumes "CHR ''('' \<notin> set r"
  shows "(case dropWhile is_space r of
            c1 # c2 # r2 \<Rightarrow> if c1 = CHR ''('' \<and> c2 = CHR ''@'' then Some () else None
          | _ \<Rightarrow> None) = None"
proof (cases "dropWhile is_space r")
  case Nil
  then show ?thesis by (simp del: dropWhile_eq_Nil_conv)
next
  case (Cons c cs)
  then have "c \<in> set r"
    by (metis list.set_intros(1) set_dropWhileD)
  with assms have "c \<noteq> CHR ''(''" by blast
  with Cons show ?thesis
    by (simp split: list.splits)
qed

lemma lazy_group_no_paren:
  assumes "\<And>r. CHR ''('' \<notin> set r \<Longrightarrow> tail r = None" and "CHR ''('' \<notin> set r"
  shows "lazy_group tail pre r = None"
  using assms(2)
proof (induction r arbitrary: pre)
  case Nil
  then show ?case by (simp add: assms(1))
next
  case (Cons c r)
  then have "tail (c # r) = None" "lazy_group tail (pre @ [c]) r = None"
    by (simp_all add: assms(1))
  then show ?case by simp
qed

lemma lazy_match_no_paren:
  assumes "\<And>r. CHR ''('' \<notin> set r \<Longrightarrow> tail r = None" and "CHR ''('' \<notin> set s"
  shows "lazy_match tail s = None"
proof (cases s)
  case Nil
  then show ?thesis by (simp add: lazy_match_def)
next
  case (Cons c r)
  with assms(2) have "CHR ''('' \<notin> set r" by simp
  from lazy_group_no_paren [of tail r "[c]", OF assms(1) this] Cons show ?thesis
    by (simp add: lazy_match_def)
qed

lemma no_paren_patterns:
  assumes "CHR ''('' \<notin> set s"
  shows "pattern1 s = None" and "pattern2 s = None" and "name_pattern s = None"
proof -
  show "pattern1 s = None"
    unfolding pattern1_def
    by (rule lazy_match_no_paren [OF _ assms]) (simp add: no_paren_paren_at)
  show "pattern2 s = None"
    unfolding pattern2_def
    by (rule lazy_match_no_paren [OF _ assms]) (simp add: no_paren_paren_at)
  have "lazy_match (\<lambda>r. case dropWhile is_space r of
                           c1 # c2 # r2 \<Rightarrow> if c1 = CHR ''('' \<and> c2 = CHR ''@'' then Some () else None
                         | _ \<Rightarrow> None) s = None"
    by (rule lazy_match_no_paren [OF _ assms]) (rule no_paren_name_tail)
  then show "name_pattern s = None"
    by (simp add: name_pattern_def)
qed

lemma pattern3_skip: "CHR ''@'' \<notin> set p \<Longrightarrow> pattern3 (p @ r) = pattern3 r"
  by (induction p) auto

lemma pattern3_at:
  assumes "CHR ''@'' \<notin> set pre" and "valid_username user"
    and "rest = [] \<or> \<not> is_uname_char (hd rest)"
  shows "pattern3 (pre @ ''@'' @ user @ rest) = Some user"
  using takeWhile_user(1) [OF assms(2,3)] assms(1,2)
  by (simp add: pattern3_skip valid_username_def)

lemma lazy_group_none_append:
  assumes "\<forall>k < length m. tail (drop k m @ r) = None"
    and "\<And>pre'. lazy_group tail pre' r = None"
  shows "lazy_group tail pre (m @ r) = None"
  using assms(1)
proof (induction m arbitrary: pre)
  case Nil
  then show ?case by (simp add: assms(2))
next
  case (Cons c m)
  from Cons.prems have "tail ((c # m) @ r) = None"
    by (metis drop0 length_greater_0_conv list.distinct(1))
  moreover have "\<forall>k < length m. tail (drop k m @ r) = None"
  proof (intro allI impI)
    fix k assume "k < length m"
    then have "Suc k < length (c # m)" by simp
    with Cons.prems have "tail (drop (Suc k) (c # m) @ r) = None" by blast
    then show "tail (drop k m @ r) = None" by simp
  qed
  then have "lazy_group tail (pre @ [c]) (m @ r) = None"
    by (rule Cons.IH)
  ultimately show ?case by simp
qed

lemma lazy_group_mono:
  assumes "\<And>r. tail r = None \<Longrightarrow> tail' r = None" and "lazy_group tail pre r = None"
  shows "lazy_group tail' pre r = None"
  using assms(2)
proof (induction r arbitrary: pre)
  case Nil
  then have "tail [] = None" by (simp split: option.splits)
  then have "tail' [] = None" by (rule assms(1))
  then show ?case by simp
next
  case (Cons c r)
  from Cons.prems have t: "tail (c # r) = None" by (simp split: option.splits)
  then have t': "tail' (c # r) = None" by (rule assms(1))
  show ?case
  proof (cases "is_line_terminator c")
    case True
    with t' show ?thesis by simp
  next
    case False
    with Cons.prems t have "lazy_group tail (pre @ [c]) r = None" by simp
    then have "lazy_group tail' (pre @ [c]) r = None" by (rule Cons.IH)
    with t' False show ?thesis by simp
  qed
qed

lemma pattern2_None_pattern1:
  assumes "pattern2 s = None"
  shows "pattern1 s = None"
proof (cases s)
  case Nil
  then show ?thesis by (simp add: pattern1_def lazy_match_def)
next
  case (Cons c r)
  show ?thesis
  proof (cases "is_line_terminator c")
    case True
    with Cons show ?thesis by (simp add: pattern1_def lazy_match_def)
  next
    case False
    with assms Cons have "lazy_group (\<lambda>r. map_option fst (paren_at r)) [c] r = None"
      by (simp add: pattern2_def lazy_match_def)
    then have "lazy_group (\<lambda>r. case paren_at r of
                             Some (u, rest) \<Rightarrow> if rest = '')'' then Some u else None
                           | None \<Rightarrow> None) [c] r = None"
      by (rule lazy_group_mono [rotated]) simp
    with Cons False show ?thesis by (simp add: pattern1_def lazy_match_def)
  qed
qed

lemma paren_at_no_user:
  assumes "\<forall>c \<in> set ws. is_space c" and "sep \<noteq> []" and "\<not> is_uname_char (hd sep)"
  shows "paren_at (ws @ ''(@'' @ sep @ rest) = None"
proof -
  have "dropWhile is_space (ws @ ''(@'' @ sep @ rest) = ''(@'' @ sep @ rest"
    using assms(1) by (simp add: dropWhile_append3 is_space_def)
  moreover from assms(2,3) have "takeWhile is_uname_char (sep @ rest) = []"
    by (cases sep) auto
  ultimately show ?thesis
    by (simp add: paren_at_def)
qed

lemma pattern2_no_user:
  assumes "name \<noteq> []" and "\<not> is_space (last name)"
    and "\<forall>c \<in> set name. c \<noteq> CHR ''(''"
    and "\<forall>c \<in> set ws. is_space c"
    and "sep \<noteq> []" and "\<not> is_uname_char (hd sep)"
    and "CHR ''('' \<notin> set (sep @ rest)"
  shows "pattern2 (name @ ws @ ''(@'' @ sep @ rest) = None"
proof -
  let ?tail = "\<lambda>r. map_option fst (paren_at r)"
  from assms(1) obtain c n where name: "name = c # n"
    by (cases name) auto
  have r3: "lazy_group ?tail pre (sep @ rest) = None" for pre
    by (rule lazy_group_no_paren [OF _ assms(7)]) (simp add: no_paren_paren_at)
  have r2: "lazy_group ?tail pre (''(@'' @ sep @ rest) = None" for pre
  proof (rule lazy_group_none_append [OF _ r3])
    show "\<forall>k < length ''(@''. ?tail (drop k ''(@'' @ sep @ rest) = None"
    proof (intro allI impI)
      fix k :: nat assume "k < length ''(@''"
      then consider "k = 0" | "k = 1" by fastforce
      then show "?tail (drop k ''(@'' @ sep @ rest) = None"
      proof cases
        case 1
        with paren_at_no_user [of "[]" sep rest] assms(5,6) show ?thesis by simp
      next
        case 2
        then show ?thesis by (simp add: paren_at_def is_space_def split: list.splits)
      qed
    qed
  qed
  have r1: "lazy_group ?tail pre (ws @ ''(@'' @ sep @ rest) = None" for pre
  proof (rule lazy_group_none_append [OF _ r2])
    show "\<forall>k < length ws. ?tail (drop k ws @ ''(@'' @ sep @ rest) = None"
    proof (intro allI impI)
      fix k assume "k < length ws"
      from assms(4) have "\<forall>c \<in> set (drop k ws). is_space c"
        by (meson in_set_dropD)
      from paren_at_no_user [OF this assms(5,6)] show "?tail (drop k ws @ ''(@'' @ sep @ rest) = None"
        by simp
    qed
  qed
  have "lazy_group ?tail [c] (n @ ws @ ''(@'' @ sep @ rest) = None"
  proof (rule lazy_group_none_append [OF _ r1])
    show "\<forall>k < length n. ?tail (drop k n @ ws @ ''(@'' @ sep @ rest) = None"
    proof (intro allI impI)
      fix k assume k: "k < length n"
      then have "drop k n \<noteq> []" by simp
      moreover from this have "last (drop k n) = last n"
        using k by simp
      moreover from k name have "last n = last name" by auto
      ultimately have "\<exists>d \<in> set (drop k n). \<not> is_space d"
        using assms(2) by (metis last_in_set)
      moreover from assms(3) name have "\<forall>d \<in> set (drop k n). d \<noteq> CHR ''(''"
        by (metis in_set_dropD list.set_intros(2))
      ultimately show "?tail (drop k n @ ws @ ''(@'' @ sep @ rest) = None"
        by (rule paren_at_None_tail(2))
    qed
  qed
  with name show ?thesis
    by (simp add: pattern2_def lazy_match_def)
qed

lemma name_pattern_name:
  assumes "name \<noteq> []" and "\<not> is_space (last name)"
    and "\<forall>c \<in> set name. c \<noteq> CHR ''('' \<and> \<not> is_line_terminator c"
    and "\<forall>c \<in> set ws. is_space c"
  shows "name_pattern (name @ ws @ ''(@'' @ rest) = Some name"
proof -
  let ?tail = "\<lambda>r. case dropWhile is_space r of
                       c1 # c2 # r2 \<Rightarrow> if c1 = CHR ''('' \<and> c2 = CHR ''@'' then Some () else None
                     | _ \<Rightarrow> None"
  have "dropWhile is_space (ws @ ''(@'' @ rest) = ''(@'' @ rest"
    using assms(4) by (simp add: dropWhile_append3 is_space_def)
  then have "?tail (ws @ ''(@'' @ rest) = Some ()"
    by simp
  from lazy_match_skips [of ?tail name "ws @ ''(@'' @ rest" "()", OF name_tail_None assms(1,2,3) this]
  show ?thesis
    by (simp add: name_pattern_def)
qed

lemma name_recovery:
  assumes "name \<noteq> []" and "\<not> is_space (last name)"
    and "\<forall>c \<in> set name. c \<noteq> CHR ''('' \<and> c \<noteq> CHR ''@'' \<and> \<not> is_line_terminator c"
    and "\<forall>c \<in> set ws. is_space c"
    and "sep \<noteq> []" and "\<not> is_uname_char (hd sep)"
    and "CHR ''@'' \<notin> set sep" and "CHR ''('' \<notin> set (sep @ rest)"
    and "valid_username user" and "rest = [] \<or> \<not> is_uname_char (hd rest)"
  shows "pattern1 (name @ ws @ ''(@'' @ sep @ ''@'' @ user @ rest) = None"
    and "pattern2 (name @ ws @ ''(@'' @ sep @ ''@'' @ user @ rest) = None"
    and "pattern3 (name @ ws @ ''(@'' @ sep @ ''@'' @ user @ rest) = Some user"
    and "name_pattern (name @ ws @ ''(@'' @ sep @ ''@'' @ user @ rest) = Some name"
proof -
  let ?t = "name @ ws @ ''(@'' @ sep @ ''@'' @ user @ rest"
  from assms(9) have user: "\<forall>c \<in> set user. is_uname_char c"
    by (simp add: valid_username_def list_all_iff)
  then have "CHR ''('' \<notin> set user"
    using uname_char_plain by blast
  with assms(8) have "CHR ''('' \<notin> set (sep @ ''@'' @ user @ rest)"
    by simp
  from pattern2_no_user [OF assms(1,2) _ assms(4,5,6) this] assms(3)
  show p2: "pattern2 ?t = None"
    by simp
  then show "pattern1 ?t = None"
    by (rule pattern2_None_pattern1)
  from assms(3) have "\<forall>c \<in> set name. c \<noteq> CHR ''('' \<and> \<not> is_line_terminator c"
    by blast
  from name_pattern_name [OF assms(1,2) this assms(4)]
  show "name_pattern ?t = Some name" .
  have "\<forall>c \<in> set ws. c \<noteq> CHR ''@''"
    using assms(4) by (auto simp: is_space_def)
  with assms(3) have "CHR ''@'' \<notin> set (name @ ws @ ''('')"
    by auto
  then have "pattern3 ?t = pattern3 (''@'' @ sep @ ''@'' @ user @ rest)"
    using pattern3_skip [of "name @ ws @ ''(''" "''@'' @ sep @ ''@'' @ user @ rest"]
    by simp
  also from assms(5,6) have "takeWhile is_uname_char (sep @ ''@'' @ user @ rest) = []"
    by (cases sep) auto
  then have "pattern3 (''@'' @ sep @ ''@'' @ user @ rest) = pattern3 (sep @ ''@'' @ user @ rest)"
    by simp
  also have "\<dots> = Some user"
    by (rule pattern3_at [OF assms(7,9,10)])
  finally show "pattern3 ?t = Some user" .
qed

lemma trim_spaces:
  assumes "\<forall>c \<in> set lead. is_space c" and "\<forall>c \<in> set trail. is_space c"
    and "name \<noteq> []" and "\<not> is_space (hd name)" and "\<not> is_space (last name)"
  shows "trim (lead @ name @ trail) = name"
proof -
  from assms(1,3,4) have "dropWhile is_space (lead @ name @ trail) = name @ trail"
    by (cases name) (simp_all add: dropWhile_append3)
  moreover from assms(2,3,5) have "dropWhile is_space (rev trail @ rev name) = rev name"
    by (cases "rev name") (auto simp: dropWhile_append3 last_rev [symmetric] hd_rev)
  ultimately show ?thesis
    by (simp add: trim_def)
qed

lemma last_user_text:
  assumes "valid_username user" and "rest = [] \<or> last rest \<noteq> CHR '')''"
  shows "last (name @ ws @ ''(@'' @ user @ rest) \<noteq> CHR '')''"
proof (cases "rest = []")
  case True
  from assms(1) have "user \<noteq> []" and "is_uname_char (last user)"
    by (simp_all add: valid_username_def list_all_iff)
  with True show ?thesis
    using uname_char_plain by auto
next
  case False
  with assms(2) show ?thesis by simp
qed

subsection \<open>The username and the display name along a walk\<close>

lemma rich_step_rich_text:
  assumes "rich_step obj r = Some r'"
  shows "r' = (case rich_text obj of Some t \<Rightarrow> apply_patterns t r | None \<Rightarrow> r)"
  using assms by (auto simp: rich_step_def rich_text_def split: option.splits if_splits)

lemma rich_step_of_rich_text:
  assumes "rich_text obj = Some t"
  shows "rich_step obj result = Some (apply_patterns t result)"
  using assms by (auto simp: rich_step_def rich_text_def split: option.splits if_splits)

lemma rich_text_rich_node: "rich_text (rich_node fragments) = Some (concat fragments)"
  by (simp add: rich_text_def rich_node_def children_of_def full_text_spans)

lemma username_apply_patterns:
  "username (apply_patterns t r) = (case matched_username t of Some u \<Rightarrow> Some u | None \<Rightarrow> username r)"
  by (simp add: apply_patterns_def matched_username_def split: option.splits prod.splits)

lemma username_text_step [simp]: "username (text_step obj r) = username r"
  by (simp add: text_step_def Let_def split: option.splits)

lemma username_init_counters [simp]: "username (init_counters r) = username r"
  by (simp add: init_counters_def)

lemma username_image_step: "image_step obj r = Some r' \<Longrightarrow> username r' = username r"
  by (auto simp: image_step_def split: option.splits if_splits json.splits)

lemma node_step_username:
  assumes "node_step n r = Some r'"
  shows "username r' = (case node_username n of Some u \<Rightarrow> Some u | None \<Rightarrow> username r)"
proof -
  from assms obtain r1 where r1: "rich_step n (text_step n (init_counters r)) = Some r1"
    and img: "image_step n r1 = Some r'"
    by (auto simp: node_step_def split: option.splits)
  from rich_step_rich_text [OF r1] have "username r1
      = (case node_username n of Some u \<Rightarrow> Some u | None \<Rightarrow> username r)"
    by (simp add: node_username_def username_apply_patterns split: option.splits)
  with username_image_step [OF img] show ?thesis
    by simp
qed

lemma walk_steps_username_kept:
  assumes "walk_steps ns r = Some r'" and "\<forall>n \<in> set ns. node_username n = None"
  shows "username r' = username r"
  using assms
proof (induction ns arbitrary: r)
  case Nil
  then show ?case by simp
next
  case (Cons n ns)
  from Cons.prems(1) obtain r1 where step: "node_step n r = Some r1"
    and rest: "walk_steps ns r1 = Some r'"
    by (auto split: option.splits)
  from node_step_username [OF step] Cons.prems(2) have "username r1 = username r"
    by simp
  moreover from Cons.IH [OF rest] Cons.prems(2) have "username r' = username r1"
    by simp
  ultimately show ?case by simp
qed

lemma walk_last_username:
  assumes "extractProfileInfo tree result = Some final"
    and "visited tree = before @ node # after"
    and "node_username node = Some u"
    and "\<forall>n \<in> set after. node_username n = None"
  shows "username final = Some u"
proof -
  from assms(1,2) have "walk_steps (before @ node # after) result = Some final"
    by (simp add: walk_visited)
  then obtain r1 r2 where "walk_steps before result = Some r1"
    and step: "node_step node r1 = Some r2" and rest: "walk_steps after r2 = Some final"
    by (auto simp: walk_steps_append split: option.splits)
  from node_step_username [OF step] assms(3) have "username r2 = Some u"
    by simp
  with walk_steps_username_kept [OF rest assms(4)] show ?thesis
    by simp
qed

lemma walk_no_username:
  assumes "extractProfileInfo tree result = Some final"
    and "\<forall>n \<in> set (visited tree). node_username n = None"
  shows "username final = username result"
  using assms walk_steps_username_kept [of "visited tree" result final]
  by (simp add: walk_visited)

lemma displayName_apply_patterns:
  "displayName (apply_patterns t r) = (case matched_name t of Some d \<Rightarrow> Some d | None \<Rightarrow> displayName r)"
  by (simp add: apply_patterns_def matched_name_def split: option.splits prod.splits)

lemma displayName_text_step [simp]: "displayName (text_step obj r) = displayName r"
  by (simp add: text_step_def Let_def split: option.splits)

lemma displayName_init_counters [simp]: "displayName (init_counters r) = displayName r"
  by (simp add: init_counters_def)

lemma displayName_image_step: "image_step obj r = Some r' \<Longrightarrow> displayName r' = displayName r"
  by (auto simp: image_step_def split: option.splits if_splits json.splits)

lemma node_step_displayName:
  assumes "node_step n r = Some r'"
  shows "displayName r' = (case node_name n of Some d \<Rightarrow> Some d | None \<Rightarrow> displayName r)"
proof -
  from assms obtain r1 where r1: "rich_step n (text_step n (init_counters r)) = Some r1"
    and img: "image_step n r1 = Some r'"
    by (auto simp: node_step_def split: option.splits)
  from rich_step_rich_text [OF r1] have "displayName r1
      = (case node_name n of Some d \<Rightarrow> Some d | None \<Rightarrow> displayName r)"
    by (simp add: node_name_def displayName_apply_patterns split: option.splits)
  with displayName_image_step [OF img] show ?thesis
    by simp
qed

lemma walk_steps_displayName_kept:
  assumes "walk_steps ns r = Some r'" and "\<forall>n \<in> set ns. node_name n = None"
  shows "displayName r' = displayName r"
  using assms
proof (induction ns arbitrary: r)
  case Nil
  then show ?case by simp
next
  case (Cons n ns)
  from Cons.prems(1) obtain r1 where step: "node_step n r = Some r1"
    and rest: "walk_steps ns r1 = Some r'"
    by (auto split: option.splits)
  from node_step_displayName [OF step] Cons.prems(2) have "displayName r1 = displayName r"
    by simp
  moreover from Cons.IH [OF rest] Cons.prems(2) have "displayName r' = displayName r1"
    by simp
  ultimately show ?case by simp
qed

lemma walk_last_displayName:
  assumes "extractProfileInfo tree result = Some final"
    and "visited tree = before @ node # after"
    and "node_name node = Some d"
    and "\<forall>n \<in> set after. node_name n = None"
  shows "displayName final = Some d"
proof -
  from assms(1,2) have "walk_steps (before @ node # after) result = Some final"
    by (simp add: walk_visited)
  then obtain r1 r2 where "walk_steps before result = Some r1"
    and step: "node_step node r1 = Some r2" and rest: "walk_steps after r2 = Some final"
    by (auto simp: walk_steps_append split: option.splits)
  from node_step_displayName [OF step] assms(3) have "displayName r2 = Some d"
    by simp
  with walk_steps_displayName_kept [OF rest assms(4)] show ?thesis
    by simp
qed

text \<open>
  C3, as stated, fails in its last part: a username set by one rich text node is
  overwritten by a later rich text node that matches. After \<open>''A (@a)''\<close> alone the username
  is \<open>''a''\<close>; with \<open>''B (@b)''\<close> after it in the same walk the username is \<open>''b''\<close>.
\<close>

theorem rich_text_counterexample:
  "map_option username
     (extractProfileInfo (JArr [rich_node [''A (@a)'']]) empty_profile) = Some (Some ''a'')
   \<and> map_option username
     (extractProfileInfo (JArr [rich_node [''A (@a)''], rich_node [''B (@b)'']]) empty_profile)
     = Some (Some ''b'')"
  by code_simp

text \<open>
  C3, amended. The concatenation of the text span fragments of a rich text node is
  matched against three patterns in a fixed order: \<^verbatim>\<open>Name (@user)\<close> ending the text, then
  \<^verbatim>\<open>Name (@user\<close> with nothing asked of what follows, then \<^verbatim>\<open>@user\<close> anywhere. The first of
  the first two that matches sets the display name, trimmed, and the username; the third
  sets the username, and the display name only when a name before \<^verbatim>\<open>(@\<close> is found; when
  none matches the record is left as it was. Trimming removes the spaces around a name.
  A name with no parenthesis, no line break and no space at either end, followed by any
  spaces and \<^verbatim>\<open>(@user)\<close>, is matched by pattern 1 and gives that name and that user, so
  \<open>''Jane Doe (@jane.doe)''\<close> gives \<open>''Jane Doe''\<close> and \<open>''jane.doe''\<close>; followed instead by
  \<^verbatim>\<open>(@user\<close> and a rest that neither continues the username nor ends in a closing
  parenthesis, it is matched by pattern 2 and not by pattern 1, with the same outcome.
  Pattern 1 matches no text that does not end in a closing parenthesis, and pattern 3
  gives the username that follows the first \<^verbatim>\<open>@\<close> of a text, wherever that is. A text without an opening
  parenthesis in which \<^verbatim>\<open>@user\<close> comes before any other \<^verbatim>\<open>@\<close> is matched by pattern 3
  alone and only the username is set. A name followed by \<^verbatim>\<open>(@\<close>, then something
  that is no username, then \<^verbatim>\<open>@user\<close>, is matched by pattern 3 alone and the name is
  recovered. The rich text branch applies the patterns to the text of the node, which
  for a node of text spans is the concatenation of the fragments. Every assignment is
  made whatever the record held before, over the whole tree: the walk is the sequence
  of the steps of the visited nodes, in the order of the visit, and when it ends without
  throwing, the username is the one given by the last visited node that gives one, the
  display name the one given by the last visited node that gives one, and the username
  is the initial one when no visited node gives one.
\<close>

theorem rich_text_patterns:
  "(pattern1 fullText = Some (g1, g2)
      \<longrightarrow> apply_patterns fullText result
            = result\<lparr>displayName := Some (trim g1), username := Some g2\<rparr>)
   \<and> (pattern1 fullText = None \<and> pattern2 fullText = Some (g1, g2)
      \<longrightarrow> apply_patterns fullText result
            = result\<lparr>displayName := Some (trim g1), username := Some g2\<rparr>)
   \<and> (pattern1 fullText = None \<and> pattern2 fullText = None \<and> pattern3 fullText = Some g
      \<longrightarrow> apply_patterns fullText result
            = result\<lparr>username := Some g,
                     displayName := (case name_pattern fullText of
                                       Some n \<Rightarrow> Some (trim n)
                                     | None \<Rightarrow> displayName result)\<rparr>)
   \<and> (pattern1 fullText = None \<and> pattern2 fullText = None \<and> pattern3 fullText = None
      \<longrightarrow> apply_patterns fullText result = result)
   \<and> ((\<forall>c \<in> set lead. is_space c) \<and> (\<forall>c \<in> set trail. is_space c)
       \<and> name \<noteq> [] \<and> \<not> is_space (hd name) \<and> \<not> is_space (last name)
      \<longrightarrow> trim (lead @ name @ trail) = name)
   \<and> (name \<noteq> [] \<and> \<not> is_space (hd name) \<and> \<not> is_space (last name)
       \<and> (\<forall>c \<in> set name. c \<noteq> CHR ''('' \<and> \<not> is_line_terminator c)
       \<and> (\<forall>c \<in> set ws. is_space c) \<and> valid_username user
      \<longrightarrow> pattern1 (name @ ws @ ''(@'' @ user @ '')'') = Some (name, user)
          \<and> apply_patterns (name @ ws @ ''(@'' @ user @ '')'') result
            = result\<lparr>displayName := Some name, username := Some user\<rparr>)
   \<and> (name \<noteq> [] \<and> \<not> is_space (hd name) \<and> \<not> is_space (last name)
       \<and> (\<forall>c \<in> set name. c \<noteq> CHR ''('' \<and> \<not> is_line_terminator c)
       \<and> (\<forall>c \<in> set ws. is_space c) \<and> valid_username user
       \<and> (rest = [] \<or> \<not> is_uname_char (hd rest) \<and> last rest \<noteq> CHR '')'')
      \<longrightarrow> pattern1 (name @ ws @ ''(@'' @ user @ rest) = None
          \<and> pattern2 (name @ ws @ ''(@'' @ user @ rest) = Some (name, user)
          \<and> apply_patterns (name @ ws @ ''(@'' @ user @ rest) result
            = result\<lparr>displayName := Some name, username := Some user\<rparr>)
   \<and> (CHR ''@'' \<notin> set pre \<and> CHR ''('' \<notin> set (pre @ rest) \<and> valid_username user
       \<and> (rest = [] \<or> \<not> is_uname_char (hd rest))
      \<longrightarrow> pattern1 (pre @ ''@'' @ user @ rest) = None
          \<and> pattern2 (pre @ ''@'' @ user @ rest) = None
          \<and> pattern3 (pre @ ''@'' @ user @ rest) = Some user
          \<and> name_pattern (pre @ ''@'' @ user @ rest) = None
          \<and> apply_patterns (pre @ ''@'' @ user @ rest) result = result\<lparr>username := Some user\<rparr>)
   \<and> (name \<noteq> [] \<and> \<not> is_space (hd name) \<and> \<not> is_space (last name)
       \<and> (\<forall>c \<in> set name. c \<noteq> CHR ''('' \<and> c \<noteq> CHR ''@'' \<and> \<not> is_line_terminator c)
       \<and> (\<forall>c \<in> set ws. is_space c)
       \<and> sep \<noteq> [] \<and> \<not> is_uname_char (hd sep) \<and> CHR ''@'' \<notin> set sep
       \<and> CHR ''('' \<notin> set (sep @ rest) \<and> valid_username user
       \<and> (rest = [] \<or> \<not> is_uname_char (hd rest))
      \<longrightarrow> pattern1 (name @ ws @ ''(@'' @ sep @ ''@'' @ user @ rest) = None
          \<and> pattern2 (name @ ws @ ''(@'' @ sep @ ''@'' @ user @ rest) = None
          \<and> pattern3 (name @ ws @ ''(@'' @ sep @ ''@'' @ user @ rest) = Some user
          \<and> name_pattern (name @ ws @ ''(@'' @ sep @ ''@'' @ user @ rest) = Some name
          \<and> apply_patterns (name @ ws @ ''(@'' @ sep @ ''@'' @ user @ rest) result
            = result\<lparr>username := Some user, displayName := Some name\<rparr>)
   \<and> rich_text (rich_node fragments) = Some (concat fragments)
   \<and> (rich_text obj = Some fullText
      \<longrightarrow> rich_step obj result = Some (apply_patterns fullText result))
   \<and> extractProfileInfo tree result = walk_steps (visited tree) result
   \<and> (extractProfileInfo tree result = Some final \<and> visited tree = before @ node # after
       \<and> node_username node = Some u \<and> (\<forall>n \<in> set after. node_username n = None)
      \<longrightarrow> username final = Some u)
   \<and> (extractProfileInfo tree result = Some final \<and> visited tree = before @ node # after
       \<and> node_name node = Some d \<and> (\<forall>n \<in> set after. node_name n = None)
      \<longrightarrow> displayName final = Some d)
   \<and> (extractProfileInfo tree result = Some final
       \<and> (\<forall>n \<in> set (visited tree). node_username n = None)
      \<longrightarrow> username final = username result)
   \<and> (fullText = [] \<or> last fullText \<noteq> CHR '')'' \<longrightarrow> pattern1 fullText = None)
   \<and> (CHR ''@'' \<notin> set pre \<and> valid_username user \<and> (rest = [] \<or> \<not> is_uname_char (hd rest))
      \<longrightarrow> pattern3 (pre @ ''@'' @ user @ rest) = Some user)"
  (is "?c1 \<and> ?c2 \<and> ?c3 \<and> ?c4 \<and> ?c5 \<and> ?c6 \<and> ?c7 \<and> ?c8 \<and> ?c9 \<and> ?c10 \<and> ?c11 \<and> ?c12
       \<and> ?c13 \<and> ?c14 \<and> ?c15 \<and> ?c16 \<and> ?c17")
proof -
  have c1: ?c1
    by (simp add: apply_patterns_def)
  have c2: ?c2
    by (simp add: apply_patterns_def)
  have c3: ?c3
    by (simp add: apply_patterns_def split: option.splits)
  have c4: ?c4
    by (simp add: apply_patterns_def)
  have c5: ?c5
    using trim_spaces [of lead trail name] by blast
  have c6: ?c6
  proof (intro impI, elim conjE)
    assume h: "name \<noteq> []" "\<not> is_space (hd name)" "\<not> is_space (last name)"
      "\<forall>c \<in> set name. c \<noteq> CHR ''('' \<and> \<not> is_line_terminator c"
      "\<forall>c \<in> set ws. is_space c" "valid_username user"
    from pattern1_name_user [OF h] trim_plain [OF h(1,2,3)]
    show "pattern1 (name @ ws @ ''(@'' @ user @ '')'') = Some (name, user)
          \<and> apply_patterns (name @ ws @ ''(@'' @ user @ '')'') result
            = result\<lparr>displayName := Some name, username := Some user\<rparr>"
      by (simp add: apply_patterns_def)
  qed
  have c7: ?c7
  proof (intro impI, elim conjE)
    assume h: "name \<noteq> []" "\<not> is_space (hd name)" "\<not> is_space (last name)"
      "\<forall>c \<in> set name. c \<noteq> CHR ''('' \<and> \<not> is_line_terminator c"
      "\<forall>c \<in> set ws. is_space c" "valid_username user"
      and r: "rest = [] \<or> \<not> is_uname_char (hd rest) \<and> last rest \<noteq> CHR '')''"
    let ?t = "name @ ws @ ''(@'' @ user @ rest"
    from r have r1: "rest = [] \<or> \<not> is_uname_char (hd rest)"
      and r2: "rest = [] \<or> last rest \<noteq> CHR '')''"
      by blast+
    from last_user_text [OF h(6) r2] have "?t = [] \<or> last ?t \<noteq> CHR '')''"
      by blast
    then have p1: "pattern1 ?t = None"
      by (rule pattern1_ends_paren)
    have p2: "pattern2 ?t = Some (name, user)"
      by (rule pattern2_name_user [OF h(1,3,4,5,6) r1])
    from p1 p2 trim_plain [OF h(1,2,3)]
    show "pattern1 ?t = None \<and> pattern2 ?t = Some (name, user)
          \<and> apply_patterns ?t result = result\<lparr>displayName := Some name, username := Some user\<rparr>"
      by (simp add: apply_patterns_def)
  qed
  have c8: ?c8
  proof (intro impI, elim conjE)
    assume h: "CHR ''@'' \<notin> set pre" "CHR ''('' \<notin> set (pre @ rest)" "valid_username user"
      "rest = [] \<or> \<not> is_uname_char (hd rest)"
    let ?t = "pre @ ''@'' @ user @ rest"
    from h(3) have "\<forall>c \<in> set user. is_uname_char c"
      by (simp add: valid_username_def list_all_iff)
    then have "CHR ''('' \<notin> set user"
      using uname_char_plain by blast
    with h(2) have "CHR ''('' \<notin> set ?t"
      by simp
    note no = no_paren_patterns [OF this]
    have p3: "pattern3 ?t = Some user"
      by (rule pattern3_at [OF h(1,3,4)])
    from no p3
    show "pattern1 ?t = None \<and> pattern2 ?t = None \<and> pattern3 ?t = Some user
          \<and> name_pattern ?t = None \<and> apply_patterns ?t result = result\<lparr>username := Some user\<rparr>"
      by (simp add: apply_patterns_def)
  qed
  have c9: ?c9
  proof (intro impI, elim conjE)
    assume h: "name \<noteq> []" "\<not> is_space (hd name)" "\<not> is_space (last name)"
      "\<forall>c \<in> set name. c \<noteq> CHR ''('' \<and> c \<noteq> CHR ''@'' \<and> \<not> is_line_terminator c"
      "\<forall>c \<in> set ws. is_space c"
      "sep \<noteq> []" "\<not> is_uname_char (hd sep)" "CHR ''@'' \<notin> set sep"
      "CHR ''('' \<notin> set (sep @ rest)" "valid_username user"
      "rest = [] \<or> \<not> is_uname_char (hd rest)"
    let ?t = "name @ ws @ ''(@'' @ sep @ ''@'' @ user @ rest"
    note p = name_recovery [OF h(1,3,4,5,6,7,8,9,10,11)]
    from p trim_plain [OF h(1,2,3)]
    show "pattern1 ?t = None \<and> pattern2 ?t = None \<and> pattern3 ?t = Some user
          \<and> name_pattern ?t = Some name
          \<and> apply_patterns ?t result = result\<lparr>username := Some user, displayName := Some name\<rparr>"
      by (simp add: apply_patterns_def)
  qed
  have c10: ?c10
    by (rule rich_text_rich_node)
  have c11: ?c11
    using rich_step_of_rich_text [of obj fullText result] by blast
  have c12: ?c12
    by (rule walk_visited(1))
  have c13: ?c13
    using walk_last_username [of tree result final before node after u] by blast
  have c14: ?c14
    using walk_last_displayName [of tree result final before node after d] by blast
  have c15: ?c15
    using walk_no_username [of tree result final] by blast
  have c16: ?c16
    using pattern1_ends_paren [of fullText] by blast
  have c17: ?c17
    using pattern3_at [of pre user rest] by blast
  from c1 c2 c3 c4 c5 c6 c7 c8 c9 c10 c11 c12 c13 c14 c15 c16 c17 show ?thesis
    by (intro conjI)
qed

theorem rich_text_patterns_witness:
  "apply_patterns ''Jane Doe (@jane.doe)'' empty_profile
     = empty_profile\<lparr>displayName := Some ''Jane Doe'', username := Some ''jane.doe''\<rparr>
   \<and> pattern1 ''Bob (@bob.b and friends'' = None
   \<and> pattern2 ''Bob (@bob.b and friends'' = Some (''Bob'', ''bob.b'')
   \<and> apply_patterns ''see @jane'' (empty_profile\<lparr>displayName := Some ''Old'', username := Some ''old''\<rparr>)
     = empty_profile\<lparr>displayName := Some ''Old'', username := Some ''jane''\<rparr>
   \<and> pattern2 ''Cy (@ @cy'' = None \<and> name_pattern ''Cy (@ @cy'' = Some ''Cy''
   \<and> apply_patterns ''Cy (@ @cy'' (empty_profile\<lparr>displayName := Some ''Old'', username := Some ''old''\<rparr>)
     = empty_profile\<lparr>displayName := Some ''Cy'', username := Some ''cy''\<rparr>
   \<and> map_option username
       (extractProfileInfo
          (JObj [(''header'', JArr [rich_node [''Ann '', ''(@ann)'']]),
                 (''body'', JObj [(''bio'', rich_node [''Bob (@bob.b and friends'']),
                                  (''note'', rich_node [''no handle here''])])])
          empty_profile) = Some (Some ''bob.b'')
   \<and> map_option displayName
       (extractProfileInfo
          (JObj [(''header'', JArr [rich_node [''Ann '', ''(@ann)'']]),
                 (''body'', JObj [(''bio'', rich_node [''Bob (@bob.b and friends'']),
                                  (''note'', rich_node [''no handle here''])])])
          empty_profile) = Some (Some ''Bob'')"
proof -
  let ?old = "empty_profile\<lparr>displayName := Some ''Old'', username := Some ''old''\<rparr>"
  let ?bob = "rich_node [''Bob (@bob.b and friends'']"
  let ?tree = "JObj [(''header'', JArr [rich_node [''Ann '', ''(@ann)'']]),
                     (''body'', JObj [(''bio'', ?bob), (''note'', rich_node [''no handle here''])])]"
  have jane_hyp: "''Jane Doe'' \<noteq> [] \<and> \<not> is_space (hd ''Jane Doe'') \<and> \<not> is_space (last ''Jane Doe'')
       \<and> (\<forall>c \<in> set ''Jane Doe''. c \<noteq> CHR ''('' \<and> \<not> is_line_terminator c)
       \<and> (\<forall>c \<in> set '' ''. is_space c) \<and> valid_username ''jane.doe''"
    by code_simp
  note jane = rich_text_patterns [where name = "''Jane Doe''" and ws = "'' ''"
      and user = "''jane.doe''" and result = empty_profile, THEN conjunct2, THEN conjunct2, THEN conjunct2, THEN conjunct2, THEN conjunct2, THEN conjunct1, rule_format]
  have 1: "pattern1 (''Jane Doe'' @ '' '' @ ''(@'' @ ''jane.doe'' @ '')'') = Some (''Jane Doe'', ''jane.doe'')
      \<and> apply_patterns (''Jane Doe'' @ '' '' @ ''(@'' @ ''jane.doe'' @ '')'') empty_profile
       = empty_profile\<lparr>displayName := Some ''Jane Doe'', username := Some ''jane.doe''\<rparr>"
    by (rule jane) (rule jane_hyp)
  have bob_hyp: "''Bob'' \<noteq> [] \<and> \<not> is_space (hd ''Bob'') \<and> \<not> is_space (last ''Bob'')
       \<and> (\<forall>c \<in> set ''Bob''. c \<noteq> CHR ''('' \<and> \<not> is_line_terminator c)
       \<and> (\<forall>c \<in> set '' ''. is_space c) \<and> valid_username ''bob.b''
       \<and> ('' and friends'' = [] \<or> \<not> is_uname_char (hd '' and friends'')
                                    \<and> last '' and friends'' \<noteq> CHR '')'')"
    by code_simp
  note bob = rich_text_patterns [where name = "''Bob''" and ws = "'' ''"
      and user = "''bob.b''" and rest = "'' and friends''" and result = empty_profile,
      THEN conjunct2, THEN conjunct2, THEN conjunct2, THEN conjunct2, THEN conjunct2, THEN conjunct2, THEN conjunct1, rule_format]
  have 2: "pattern1 (''Bob'' @ '' '' @ ''(@'' @ ''bob.b'' @ '' and friends'') = None
      \<and> pattern2 (''Bob'' @ '' '' @ ''(@'' @ ''bob.b'' @ '' and friends'') = Some (''Bob'', ''bob.b'')
      \<and> apply_patterns (''Bob'' @ '' '' @ ''(@'' @ ''bob.b'' @ '' and friends'') empty_profile
       = empty_profile\<lparr>displayName := Some ''Bob'', username := Some ''bob.b''\<rparr>"
    by (rule bob) (rule bob_hyp)
  have see_hyp: "CHR ''@'' \<notin> set ''see '' \<and> CHR ''('' \<notin> set (''see '' @ []) \<and> valid_username ''jane''
       \<and> ([] = [] \<or> \<not> is_uname_char (hd []))"
    by code_simp
  note see = rich_text_patterns [where pre = "''see ''" and user = "''jane''" and rest = "[]"
      and result = ?old, THEN conjunct2, THEN conjunct2, THEN conjunct2, THEN conjunct2, THEN conjunct2, THEN conjunct2, THEN conjunct2, THEN conjunct1, rule_format]
  have 3: "pattern1 (''see '' @ ''@'' @ ''jane'' @ []) = None
      \<and> pattern2 (''see '' @ ''@'' @ ''jane'' @ []) = None
      \<and> pattern3 (''see '' @ ''@'' @ ''jane'' @ []) = Some ''jane''
      \<and> name_pattern (''see '' @ ''@'' @ ''jane'' @ []) = None
      \<and> apply_patterns (''see '' @ ''@'' @ ''jane'' @ []) ?old = ?old\<lparr>username := Some ''jane''\<rparr>"
    by (rule see) (rule see_hyp)
  have cy_hyp: "''Cy'' \<noteq> [] \<and> \<not> is_space (hd ''Cy'') \<and> \<not> is_space (last ''Cy'')
       \<and> (\<forall>c \<in> set ''Cy''. c \<noteq> CHR ''('' \<and> c \<noteq> CHR ''@'' \<and> \<not> is_line_terminator c)
       \<and> (\<forall>c \<in> set '' ''. is_space c)
       \<and> '' '' \<noteq> [] \<and> \<not> is_uname_char (hd '' '') \<and> CHR ''@'' \<notin> set '' ''
       \<and> CHR ''('' \<notin> set ('' '' @ []) \<and> valid_username ''cy''
       \<and> ([] = [] \<or> \<not> is_uname_char (hd []))"
    by code_simp
  note cy = rich_text_patterns [where name = "''Cy''" and ws = "'' ''" and sep = "'' ''"
      and user = "''cy''" and rest = "[]" and result = ?old, THEN conjunct2, THEN conjunct2, THEN conjunct2, THEN conjunct2, THEN conjunct2, THEN conjunct2, THEN conjunct2, THEN conjunct2, THEN conjunct1, rule_format]
  have 4: "pattern1 (''Cy'' @ '' '' @ ''(@'' @ '' '' @ ''@'' @ ''cy'' @ []) = None
      \<and> pattern2 (''Cy'' @ '' '' @ ''(@'' @ '' '' @ ''@'' @ ''cy'' @ []) = None
      \<and> pattern3 (''Cy'' @ '' '' @ ''(@'' @ '' '' @ ''@'' @ ''cy'' @ []) = Some ''cy''
      \<and> name_pattern (''Cy'' @ '' '' @ ''(@'' @ '' '' @ ''@'' @ ''cy'' @ []) = Some ''Cy''
      \<and> apply_patterns (''Cy'' @ '' '' @ ''(@'' @ '' '' @ ''@'' @ ''cy'' @ []) ?old
        = ?old\<lparr>username := Some ''cy'', displayName := Some ''Cy''\<rparr>"
    by (rule cy) (rule cy_hyp)
  have "extractProfileInfo ?tree empty_profile \<noteq> None"
    by code_simp
  then obtain final where final: "extractProfileInfo ?tree empty_profile = Some final"
    by blast
  have split: "visited ?tree = take 8 (visited ?tree) @ ?bob # drop 9 (visited ?tree)"
    by code_simp
  have user_hyp: "node_username ?bob = Some ''bob.b''
      \<and> (\<forall>n \<in> set (drop 9 (visited ?tree)). node_username n = None)"
    by code_simp
  have name_hyp: "node_name ?bob = Some ''Bob''
      \<and> (\<forall>n \<in> set (drop 9 (visited ?tree)). node_name n = None)"
    by code_simp
  note last_user = rich_text_patterns [where tree = ?tree and result = empty_profile
      and final = final and before = "take 8 (visited ?tree)" and node = ?bob
      and after = "drop 9 (visited ?tree)" and u = "''bob.b''", THEN conjunct2, THEN conjunct2, THEN conjunct2, THEN conjunct2, THEN conjunct2, THEN conjunct2, THEN conjunct2, THEN conjunct2, THEN conjunct2, THEN conjunct2, THEN conjunct2, THEN conjunct2, THEN conjunct1, rule_format]
  note last_name = rich_text_patterns [where tree = ?tree and result = empty_profile
      and final = final and before = "take 8 (visited ?tree)" and node = ?bob
      and after = "drop 9 (visited ?tree)" and d = "''Bob''", THEN conjunct2, THEN conjunct2, THEN conjunct2, THEN conjunct2, THEN conjunct2, THEN conjunct2, THEN conjunct2, THEN conjunct2, THEN conjunct2, THEN conjunct2, THEN conjunct2, THEN conjunct2, THEN conjunct2, THEN conjunct1, rule_format]
  have 5: "username final = Some ''bob.b''"
    by (rule last_user) (intro conjI final split user_hyp [THEN conjunct1] user_hyp [THEN conjunct2])
  have 6: "displayName final = Some ''Bob''"
    by (rule last_name) (intro conjI final split name_hyp [THEN conjunct1] name_hyp [THEN conjunct2])
  from 1 2 3 4 5 6 final show ?thesis
    by (simp add: empty_profile_def)
qed

section \<open>C4: labels and values\<close>

lemma text_fields_apply_patterns [simp]:
  "joined (apply_patterns t r) = joined r"
  "location (apply_patterns t r) = location r"
  "lastLabelIndex (apply_patterns t r) = lastLabelIndex r"
  by (simp_all add: apply_patterns_def split: option.splits prod.splits)

lemma rich_step_text_fields:
  assumes "rich_step n r = Some r'"
  shows "labelCount r' = labelCount r" and "lastLabelIndex r' = lastLabelIndex r"
    and "joined r' = joined r" and "location r' = location r"
  using rich_step_rich_text [OF assms] by (simp_all split: option.splits)

lemma image_step_text_fields:
  assumes "image_step n r = Some r'"
  shows "labelCount r' = labelCount r" and "lastLabelIndex r' = lastLabelIndex r"
    and "joined r' = joined r" and "location r' = location r"
  using assms by (auto simp: image_step_def split: option.splits if_splits json.splits)

lemma node_step_text_fields:
  assumes "node_step n r = Some r'"
  shows "labelCount r' = labelCount (text_step n (init_counters r))"
    and "lastLabelIndex r' = lastLabelIndex (text_step n (init_counters r))"
    and "joined r' = joined (text_step n (init_counters r))"
    and "location r' = location (text_step n (init_counters r))"
proof -
  from assms obtain r1 where r1: "rich_step n (text_step n (init_counters r)) = Some r1"
    and img: "image_step n r1 = Some r'"
    by (auto simp: node_step_def split: option.splits)
  from rich_step_text_fields [OF r1] image_step_text_fields [OF img]
  show "labelCount r' = labelCount (text_step n (init_counters r))"
    and "lastLabelIndex r' = lastLabelIndex (text_step n (init_counters r))"
    and "joined r' = joined (text_step n (init_counters r))"
    and "location r' = location (text_step n (init_counters r))"
    by simp_all
qed

lemma is_label_cases:
  assumes "is_label n"
  obtains textComp where "get_prop n ''bk.components.Text'' = Some textComp" and "truthy textComp"
    and "get_prop textComp ''text_style'' = Some (JStr ''semibold'')"
    and "truthy_opt (get_prop textComp ''text'')"
  using assms
  by (auto simp: is_label_def style_of_def text_of_def split: option.splits if_splits)

lemma is_value_cases:
  assumes "is_value n"
  obtains textComp where "get_prop n ''bk.components.Text'' = Some textComp" and "truthy textComp"
    and "get_prop textComp ''text_style'' = Some (JStr ''normal'')"
    and "truthy_opt (get_prop textComp ''text'')"
  using assms
  by (auto simp: is_value_def style_of_def text_of_def split: option.splits if_splits)

lemma text_step_label:
  assumes "is_label n" and "labelCount r = Some c"
  shows "text_step n r = r\<lparr>labelCount := Some (Suc c), lastLabelIndex := Index (Suc c)\<rparr>"
  using assms(1)
proof (rule is_label_cases)
  fix textComp
  assume "get_prop n ''bk.components.Text'' = Some textComp" and "truthy textComp"
    and "get_prop textComp ''text_style'' = Some (JStr ''semibold'')"
    and "truthy_opt (get_prop textComp ''text'')"
  with assms(2) show ?thesis
    by (simp add: text_step_def Let_def)
qed

lemma text_step_value:
  assumes "is_value n"
  shows "text_step n r =
     (if index_truthy (lastLabelIndex r) then
        (if lastLabelIndex r = Index 2 \<and> \<not> truthy_opt (joined r) then r\<lparr>joined := text_of n\<rparr>
         else if lastLabelIndex r = Index 3 \<and> \<not> truthy_opt (location r) then r\<lparr>location := text_of n\<rparr>
         else r)\<lparr>lastLabelIndex := Null\<rparr>
      else r)"
  using assms
proof (rule is_value_cases)
  fix textComp
  assume "get_prop n ''bk.components.Text'' = Some textComp" and "truthy textComp"
    and "get_prop textComp ''text_style'' = Some (JStr ''normal'')"
    and "truthy_opt (get_prop textComp ''text'')"
  then show ?thesis
    by (simp add: text_step_def Let_def text_of_def)
qed

lemma text_step_idle:
  assumes "\<not> is_label n" and "\<not> is_value n"
  shows "text_step n r = r"
proof (cases "get_prop n ''bk.components.Text''")
  case None
  then show ?thesis by (simp add: text_step_def)
next
  case (Some textComp)
  show ?thesis
  proof (cases "truthy textComp")
    case False
    with Some show ?thesis by (simp add: text_step_def)
  next
    case True
    with Some assms have "\<not> (get_prop textComp ''text_style'' = Some (JStr ''semibold'')
                            \<and> truthy_opt (get_prop textComp ''text''))"
      and "\<not> (get_prop textComp ''text_style'' = Some (JStr ''normal'')
                            \<and> truthy_opt (get_prop textComp ''text''))"
      by (simp_all add: is_label_def is_value_def style_of_def text_of_def)
    with Some True show ?thesis
      by (auto simp: text_step_def Let_def)
  qed
qed

lemma label_not_value: "is_label n \<Longrightarrow> \<not> is_value n"
  by (simp add: is_label_def is_value_def)

lemma text_of_text_node: "text_of (text_node style text) = Some text"
  "style_of (text_node style text) = Some (JStr style)"
  by (simp_all add: text_of_def style_of_def text_node_def)

lemma label_text_node:
  "is_label (text_node ''semibold'' text) = truthy text"
  "is_value (text_node ''normal'' text) = truthy text"
  by (simp_all add: is_label_def is_value_def text_of_text_node truthy_opt_def)

lemma init_counters_init: "init_counters (init_counters r) = init_counters r"
  by (simp add: init_counters_def)

lemma node_step_init: "node_step n (init_counters r) = node_step n r"
  by (simp add: node_step_def init_counters_init)

lemma walk_steps_init: "ns \<noteq> [] \<Longrightarrow> walk_steps ns (init_counters r) = walk_steps ns r"
  by (cases ns) (simp_all add: node_step_init)

lemma counters_ok_iff:
  "counters_ok r c =
     (labelCount r = Some c
      \<and> (\<forall>k. lastLabelIndex r = Index k \<longrightarrow> k = c \<and> 0 < k)
      \<and> (c < 2 \<longrightarrow> joined r = None) \<and> (lastLabelIndex r = Index 2 \<longrightarrow> joined r = None)
      \<and> (c < 3 \<longrightarrow> location r = None) \<and> (lastLabelIndex r = Index 3 \<longrightarrow> location r = None))"
  by (cases "lastLabelIndex r") (simp_all add: counters_ok_def)

lemma counters_ok_init: "counters_ok (init_counters empty_profile) 0"
  by (simp add: counters_ok_iff init_counters_def empty_profile_def)

lemma counters_ok_step:
  assumes "counters_ok r c" and "node_step n r = Some r'"
  shows "counters_ok r' (if is_label n then Suc c else c)"
proof -
  from assms(1) have lc: "labelCount r = Some c"
    by (simp add: counters_ok_iff)
  then have init: "init_counters r = r"
    by (simp add: init_counters_def)
  note f = node_step_text_fields [OF assms(2), unfolded init]
  consider "is_label n" | "is_value n" "\<not> is_label n" | "\<not> is_label n" "\<not> is_value n"
    by blast
  then show ?thesis
  proof cases
    case 1
    from text_step_label [OF 1 lc] f assms(1) 1 show ?thesis
      by (auto simp: counters_ok_iff)
  next
    case 2
    show ?thesis
    proof (cases "index_truthy (lastLabelIndex r)")
      case False
      with text_step_value [OF 2(1), of r] f assms(1) 2(2) show ?thesis
        by (simp add: counters_ok_iff)
    next
      case True
      then obtain k where k: "lastLabelIndex r = Index k" "k \<noteq> 0"
        by (cases "lastLabelIndex r") auto
      with assms(1) have kc: "k = c"
        by (simp add: counters_ok_iff)
      from text_step_value [OF 2(1), of r] True f
      have "labelCount r' = Some c" and "lastLabelIndex r' = Null"
        and "c < 2 \<longrightarrow> joined r' = joined r" and "c < 3 \<longrightarrow> location r' = location r"
        using lc k kc by (auto split: if_splits)
      with assms(1) 2(2) show ?thesis
        by (simp add: counters_ok_iff)
    qed
  next
    case 3
    from text_step_idle [OF 3, of r] f assms(1) 3 show ?thesis
      by (simp add: counters_ok_iff)
  qed
qed

lemma counters_ok_walk:
  assumes "counters_ok r c" and "walk_steps ns r = Some r'"
  shows "counters_ok r' (c + length (filter is_label ns))"
  using assms
proof (induction ns arbitrary: r c)
  case Nil
  then show ?case by simp
next
  case (Cons n ns)
  from Cons.prems(2) obtain r1 where step: "node_step n r = Some r1"
    and rest: "walk_steps ns r1 = Some r'"
    by (auto split: option.splits)
  from counters_ok_step [OF Cons.prems(1) step]
  have "counters_ok r1 (if is_label n then Suc c else c)" .
  from Cons.IH [OF this rest] show ?case
    by (simp split: if_splits)
qed

lemma idle_step:
  assumes "labelCount r \<noteq> None" and "\<not> is_label n" and "\<not> is_value n"
    and "node_step n r = Some r'"
  shows "labelCount r' = labelCount r" and "lastLabelIndex r' = lastLabelIndex r"
    and "joined r' = joined r" and "location r' = location r"
  using node_step_text_fields [OF assms(4)] text_step_idle [OF assms(2,3), of r]
    init_counters_idle [OF assms(1)]
  by simp_all

lemma idle_walk:
  assumes "labelCount r \<noteq> None" and "\<forall>n \<in> set ns. \<not> is_label n \<and> \<not> is_value n"
    and "walk_steps ns r = Some r'"
  shows "labelCount r' = labelCount r \<and> lastLabelIndex r' = lastLabelIndex r
         \<and> joined r' = joined r \<and> location r' = location r"
  using assms
proof (induction ns arbitrary: r)
  case Nil
  then show ?case by simp
next
  case (Cons n ns)
  from Cons.prems(3) obtain r1 where step: "node_step n r = Some r1"
    and rest: "walk_steps ns r1 = Some r'"
    by (auto split: option.splits)
  from Cons.prems(2) have n: "\<not> is_label n" "\<not> is_value n"
    and ns: "\<forall>n \<in> set ns. \<not> is_label n \<and> \<not> is_value n"
    by simp_all
  note s = idle_step [OF Cons.prems(1) n step]
  from s(1) Cons.prems(1) have "labelCount r1 \<noteq> None"
    by simp
  from Cons.IH [OF this ns rest] s show ?case
    by simp
qed

lemma set_once_step:
  assumes "node_step n r = Some r'"
  shows "truthy_opt (joined r) \<Longrightarrow> joined r' = joined r"
    and "truthy_opt (location r) \<Longrightarrow> location r' = location r"
proof -
  obtain c where lc: "labelCount (init_counters r) = Some c"
    by (cases "labelCount r") (auto simp: init_counters_def)
  have j: "joined (init_counters r) = joined r" and l: "location (init_counters r) = location r"
    by (simp_all add: init_counters_def)
  note f = node_step_text_fields [OF assms]
  consider "is_label n" | "is_value n" | "\<not> is_label n" "\<not> is_value n"
    by blast
  then have "(truthy_opt (joined r) \<longrightarrow> joined r' = joined r)
             \<and> (truthy_opt (location r) \<longrightarrow> location r' = location r)"
  proof cases
    case 1
    from text_step_label [OF 1 lc] f j l show ?thesis
      by simp
  next
    case 2
    from text_step_value [OF 2, of "init_counters r"] f j l show ?thesis
      by (simp split: if_splits)
  next
    case 3
    from text_step_idle [OF 3, of "init_counters r"] f j l show ?thesis
      by simp
  qed
  then show "truthy_opt (joined r) \<Longrightarrow> joined r' = joined r"
    and "truthy_opt (location r) \<Longrightarrow> location r' = location r"
    by simp_all
qed

lemma set_once_walk:
  assumes "walk_steps ns r = Some r'"
  shows "(truthy_opt (joined r) \<longrightarrow> joined r' = joined r)
         \<and> (truthy_opt (location r) \<longrightarrow> location r' = location r)"
  using assms
proof (induction ns arbitrary: r)
  case Nil
  then show ?case by simp
next
  case (Cons n ns)
  from Cons.prems obtain r1 where step: "node_step n r = Some r1"
    and rest: "walk_steps ns r1 = Some r'"
    by (auto split: option.splits)
  from set_once_step [OF step] Cons.IH [OF rest] show ?case
    by auto
qed

lemma pending_value:
  assumes "counters_ok r c" and "is_label l"
    and "\<forall>n \<in> set gap. \<not> is_label n \<and> \<not> is_value n" and "is_value v"
    and "walk_steps (l # gap @ v # after) r = Some final"
  shows "(c = 1 \<longrightarrow> joined final = text_of v) \<and> (c = 2 \<longrightarrow> location final = text_of v)"
proof -
  from assms(5) obtain r1 r2 r3 where l: "node_step l r = Some r1"
    and gap: "walk_steps gap r1 = Some r2" and v: "node_step v r2 = Some r3"
    and after: "walk_steps after r3 = Some final"
    by (auto simp: walk_steps_append split: option.splits)
  from assms(1) have lc: "labelCount r = Some c"
    by (simp add: counters_ok_iff)
  then have init: "init_counters r = r"
    by (simp add: init_counters_def)
  from counters_ok_step [OF assms(1) l] assms(2) have ok1: "counters_ok r1 (Suc c)"
    by simp
  from node_step_text_fields(2) [OF l] text_step_label [OF assms(2) lc] init
  have p1: "lastLabelIndex r1 = Index (Suc c)"
    by simp
  from ok1 have lc1: "labelCount r1 \<noteq> None"
    by (simp add: counters_ok_iff)
  from idle_walk [OF lc1 assms(3) gap] p1
  have p2: "lastLabelIndex r2 = Index (Suc c)" and j2: "joined r2 = joined r1"
    and l2: "location r2 = location r1" and lc2: "labelCount r2 \<noteq> None"
    using lc1 by simp_all
  from ok1 p1 have "c = 1 \<longrightarrow> joined r1 = None" and "c = 2 \<longrightarrow> location r1 = None"
    by (auto simp: counters_ok_iff)
  with j2 l2 have none: "c = 1 \<longrightarrow> joined r2 = None" "c = 2 \<longrightarrow> location r2 = None"
    by simp_all
  from node_step_text_fields(3,4) [OF v] text_step_value [OF assms(4), of r2]
    init_counters_idle [OF lc2] p2 none
  have "c = 1 \<longrightarrow> joined r3 = text_of v" and "c = 2 \<longrightarrow> location r3 = text_of v"
    by (auto simp: truthy_opt_def)
  moreover from assms(4) have "truthy_opt (text_of v)"
    by (simp add: is_value_def)
  ultimately show ?thesis
    using set_once_walk [OF after] by auto
qed

lemma walk_counted:
  assumes "extractProfileInfo tree empty_profile = Some final" and "visited tree \<noteq> []"
  shows "counters_ok final (length (filter is_label (visited tree)))"
proof -
  from assms have "walk_steps (visited tree) (init_counters empty_profile) = Some final"
    by (simp add: walk_visited walk_steps_init)
  from counters_ok_walk [OF counters_ok_init this] show ?thesis
    by simp
qed

lemma walk_label_count:
  assumes "extractProfileInfo tree empty_profile = Some final" and "visited tree \<noteq> []"
  shows "labelCount final = Some (length (filter is_label (visited tree)))"
  using walk_counted [OF assms] by (simp add: counters_ok_iff)

lemma walk_few_labels:
  assumes "extractProfileInfo tree empty_profile = Some final"
  shows "length (filter is_label (visited tree)) < 2 \<Longrightarrow> joined final = None"
    and "length (filter is_label (visited tree)) < 3 \<Longrightarrow> location final = None"
proof -
  have "(length (filter is_label (visited tree)) < 2 \<longrightarrow> joined final = None)
        \<and> (length (filter is_label (visited tree)) < 3 \<longrightarrow> location final = None)"
  proof (cases "visited tree = []")
    case True
    with assms have "final = empty_profile"
      by (simp add: walk_visited)
    then show ?thesis
      by (simp add: empty_profile_def)
  next
    case False
    from walk_counted [OF assms False] show ?thesis
      by (simp add: counters_ok_iff)
  qed
  then show "length (filter is_label (visited tree)) < 2 \<Longrightarrow> joined final = None"
    and "length (filter is_label (visited tree)) < 3 \<Longrightarrow> location final = None"
    by simp_all
qed

lemma walk_pending_value:
  assumes "extractProfileInfo tree empty_profile = Some final"
    and "visited tree = pre @ l # gap @ v # after"
    and "is_label l" and "\<forall>n \<in> set gap. \<not> is_label n \<and> \<not> is_value n" and "is_value v"
  shows "length (filter is_label pre) = 1 \<Longrightarrow> joined final = text_of v"
    and "length (filter is_label pre) = 2 \<Longrightarrow> location final = text_of v"
proof -
  from assms(1,2) have "walk_steps (pre @ l # gap @ v # after) (init_counters empty_profile)
      = Some final"
    by (simp add: walk_visited walk_steps_init)
  then obtain r where pre: "walk_steps pre (init_counters empty_profile) = Some r"
    and rest: "walk_steps (l # gap @ v # after) r = Some final"
    by (auto simp: walk_steps_append split: option.splits)
  from counters_ok_walk [OF counters_ok_init pre]
  have "counters_ok r (length (filter is_label pre))"
    by simp
  from pending_value [OF this assms(3,4,5) rest]
  show "length (filter is_label pre) = 1 \<Longrightarrow> joined final = text_of v"
    and "length (filter is_label pre) = 2 \<Longrightarrow> location final = text_of v"
    by simp_all
qed

text \<open>
  C4, as stated, fails: a semibold text node whose text is empty is not counted as a
  label. With such a node first, the label that follows it has ordinal 1, not 2, and the
  value after it is not taken as the joined date.
\<close>

theorem text_step_counterexample:
  "map_option labelCount
     (extractProfileInfo (JArr [text_node ''semibold'' (JStr [])]) empty_profile) = Some (Some 0)
   \<and> map_option joined
     (extractProfileInfo
        (JArr [text_node ''semibold'' (JStr []), text_node ''semibold'' (JStr ''Joined''),
               text_node ''normal'' (JStr ''March 2020'')]) empty_profile) = Some None"
  by code_simp

text \<open>
  C4, amended. A text node with the semibold style and a truthy text is a label: the
  label counter goes up by one and the new count becomes the pending label. A text node
  with the normal style and a truthy text is a value: if a label is pending, the ordinal
  of that label decides, 2 sets the joined field unless it is set already, 3 sets the
  location field unless it is set already, any other ordinal sets nothing, and in each
  case the pending label is cleared; if no label is pending, nothing changes. A node
  whose text is falsy or missing changes nothing: it is no label and consumes no pending
  label; the same holds of any node that is neither a label nor a value. Over the whole
  tree: the walk is the sequence of the steps of the visited nodes, in the order of the
  visit, and when it starts from the empty record and ends without throwing, the label
  counter is the number of labels among the visited nodes; the first value after the
  second label, with no label in between, is the joined date; the first value after the
  third label, with no label in between, is the location; with fewer than two labels the
  joined date is unset and with fewer than three the location is unset.
\<close>

theorem text_step_labels_values:
  "(is_label obj \<and> labelCount result = Some n
      \<longrightarrow> text_step obj result
            = result\<lparr>labelCount := Some (Suc n), lastLabelIndex := Index (Suc n)\<rparr>)
   \<and> (is_value obj \<and> lastLabelIndex result = Index 2
      \<longrightarrow> text_step obj result
            = result\<lparr>joined := (if truthy_opt (joined result) then joined result else text_of obj),
                     lastLabelIndex := Null\<rparr>)
   \<and> (is_value obj \<and> lastLabelIndex result = Index 3
      \<longrightarrow> text_step obj result
            = result\<lparr>location := (if truthy_opt (location result) then location result
                                   else text_of obj),
                     lastLabelIndex := Null\<rparr>)
   \<and> (is_value obj \<and> lastLabelIndex result = Index k \<and> k \<noteq> 0 \<and> k \<noteq> 2 \<and> k \<noteq> 3
      \<longrightarrow> text_step obj result = result\<lparr>lastLabelIndex := Null\<rparr>)
   \<and> (is_value obj \<and> \<not> index_truthy (lastLabelIndex result)
      \<longrightarrow> text_step obj result = result)
   \<and> (\<not> truthy_opt (text_of obj) \<longrightarrow> text_step obj result = result)
   \<and> (\<not> is_label obj \<and> \<not> is_value obj \<longrightarrow> text_step obj result = result)
   \<and> is_label (text_node ''semibold'' text) = truthy text
   \<and> is_value (text_node ''normal'' text) = truthy text
   \<and> text_of (text_node style text) = Some text
   \<and> extractProfileInfo tree result = walk_steps (visited tree) result
   \<and> (extractProfileInfo tree empty_profile = Some final \<and> visited tree \<noteq> []
      \<longrightarrow> labelCount final = Some (length (filter is_label (visited tree))))
   \<and> (extractProfileInfo tree empty_profile = Some final
       \<and> visited tree = pre @ l # gap @ v # after
       \<and> length (filter is_label pre) = 1 \<and> is_label l
       \<and> (\<forall>n \<in> set gap. \<not> is_label n \<and> \<not> is_value n) \<and> is_value v
      \<longrightarrow> joined final = text_of v)
   \<and> (extractProfileInfo tree empty_profile = Some final
       \<and> visited tree = pre @ l # gap @ v # after
       \<and> length (filter is_label pre) = 2 \<and> is_label l
       \<and> (\<forall>n \<in> set gap. \<not> is_label n \<and> \<not> is_value n) \<and> is_value v
      \<longrightarrow> location final = text_of v)
   \<and> (extractProfileInfo tree empty_profile = Some final
       \<and> length (filter is_label (visited tree)) < 2
      \<longrightarrow> joined final = None)
   \<and> (extractProfileInfo tree empty_profile = Some final
       \<and> length (filter is_label (visited tree)) < 3
      \<longrightarrow> location final = None)"
  (is "?c1 \<and> ?c2 \<and> ?c3 \<and> ?c4 \<and> ?c5 \<and> ?c6 \<and> ?c7 \<and> ?c8 \<and> ?c9 \<and> ?c10 \<and> ?c11 \<and> ?c12
       \<and> ?c13 \<and> ?c14 \<and> ?c15 \<and> ?c16")
proof -
  have c1: ?c1
    using text_step_label [of obj result n] by blast
  have c2: ?c2
    using text_step_value [of obj result] by simp
  have c3: ?c3
    using text_step_value [of obj result] by simp
  have c4: ?c4
    using text_step_value [of obj result] by simp
  have c5: ?c5
    using text_step_value [of obj result] by simp
  have c7: ?c7
    using text_step_idle [of obj result] by blast
  have c6: ?c6
    using c7 by (simp add: is_label_def is_value_def)
  have c8: ?c8 and c9: ?c9
    by (rule label_text_node)+
  have c10: ?c10
    by (rule text_of_text_node(1))
  have c11: ?c11
    by (rule walk_visited(1))
  have c12: ?c12
    using walk_label_count [of tree final] by blast
  have c13: ?c13
    using walk_pending_value(1) [of tree final pre l gap v after] by blast
  have c14: ?c14
    using walk_pending_value(2) [of tree final pre l gap v after] by blast
  have c15: ?c15
    using walk_few_labels(1) [of tree final] by blast
  have c16: ?c16
    using walk_few_labels(2) [of tree final] by blast
  from c1 c2 c3 c4 c5 c6 c7 c8 c9 c10 c11 c12 c13 c14 c15 c16 show ?thesis
    by (intro conjI)
qed

theorem text_step_labels_values_witness:
  "text_step (text_node ''normal'' (JStr ''March 2020''))
     (empty_profile\<lparr>labelCount := Some 2, valueCount := Some 0, lastLabelIndex := Index 2\<rparr>)
   = empty_profile\<lparr>labelCount := Some 2, valueCount := Some 0, lastLabelIndex := Null,
                    joined := Some (JStr ''March 2020'')\<rparr>
   \<and> text_step (JObj [(''bk.components.Text'', JObj [(''text_style'', JStr ''semibold'')])])
       (empty_profile\<lparr>labelCount := Some 1, valueCount := Some 0\<rparr>)
     = empty_profile\<lparr>labelCount := Some 1, valueCount := Some 0\<rparr>
   \<and> text_step (text_node ''normal'' (JStr []))
       (empty_profile\<lparr>labelCount := Some 2, valueCount := Some 0, lastLabelIndex := Index 2\<rparr>)
     = empty_profile\<lparr>labelCount := Some 2, valueCount := Some 0, lastLabelIndex := Index 2\<rparr>
   \<and> map_option (\<lambda>final. (labelCount final, joined final, location final))
       (extractProfileInfo
          (JObj [(''header'', JArr [text_node ''semibold'' (JStr ''Name''),
                                    text_node ''normal'' (JStr ''Jane'')]),
                 (''body'', JObj [(''rows'',
                    JArr [text_node ''semibold'' (JStr []),
                          text_node ''semibold'' (JStr ''Joined''),
                          JObj [(''pad'', JNull)],
                          text_node ''normal'' (JStr ''March 2020''),
                          text_node ''normal'' (JStr ''stray''),
                          text_node ''semibold'' (JStr ''Based in''),
                          text_node ''normal'' (JStr ''Taiwan'')])])])
          empty_profile)
     = Some (Some 3, Some (JStr ''March 2020''), Some (JStr ''Taiwan''))"
proof -
  let ?pending = "empty_profile\<lparr>labelCount := Some 2, valueCount := Some 0, lastLabelIndex := Index 2\<rparr>"
  let ?idle = "empty_profile\<lparr>labelCount := Some 1, valueCount := Some 0\<rparr>"
  let ?bare = "JObj [(''bk.components.Text'', JObj [(''text_style'', JStr ''semibold'')])]"
  let ?joined = "text_node ''semibold'' (JStr ''Joined'')"
  let ?march = "text_node ''normal'' (JStr ''March 2020'')"
  let ?based = "text_node ''semibold'' (JStr ''Based in'')"
  let ?taiwan = "text_node ''normal'' (JStr ''Taiwan'')"
  let ?tree = "JObj [(''header'', JArr [text_node ''semibold'' (JStr ''Name''),
                                        text_node ''normal'' (JStr ''Jane'')]),
                     (''body'', JObj [(''rows'',
                        JArr [text_node ''semibold'' (JStr []), ?joined, JObj [(''pad'', JNull)],
                              ?march, text_node ''normal'' (JStr ''stray''), ?based, ?taiwan])])]"
  have pending_hyp: "is_value ?march \<and> lastLabelIndex ?pending = Index 2"
    by code_simp
  note pending = text_step_labels_values [where obj = ?march and result = ?pending,
      THEN conjunct2, THEN conjunct1, rule_format]
  have 1: "text_step ?march ?pending
      = ?pending\<lparr>joined := (if truthy_opt (joined ?pending) then joined ?pending else text_of ?march),
                  lastLabelIndex := Null\<rparr>"
    by (rule pending) (rule pending_hyp)
  have bare_hyp: "\<not> truthy_opt (text_of ?bare)"
    by code_simp
  note bare = text_step_labels_values [where obj = ?bare and result = ?idle,
      THEN conjunct2, THEN conjunct2, THEN conjunct2, THEN conjunct2, THEN conjunct2, THEN conjunct1, rule_format]
  have 2: "text_step ?bare ?idle = ?idle"
    by (rule bare) (rule bare_hyp)
  have empty_hyp: "\<not> truthy_opt (text_of (text_node ''normal'' (JStr [])))"
    by code_simp
  note empty = text_step_labels_values [where obj = "text_node ''normal'' (JStr [])"
      and result = ?pending, THEN conjunct2, THEN conjunct2, THEN conjunct2, THEN conjunct2, THEN conjunct2, THEN conjunct1, rule_format]
  have 3: "text_step (text_node ''normal'' (JStr [])) ?pending = ?pending"
    by (rule empty) (rule empty_hyp)
  have "extractProfileInfo ?tree empty_profile \<noteq> None"
    by code_simp
  then obtain final where final: "extractProfileInfo ?tree empty_profile = Some final"
    by blast
  have count_hyp: "visited ?tree \<noteq> []"
    by code_simp
  have labels: "length (filter is_label (visited ?tree)) = 3"
    by code_simp
  note count = text_step_labels_values [where tree = ?tree and final = final,
      THEN conjunct2, THEN conjunct2, THEN conjunct2, THEN conjunct2, THEN conjunct2, THEN conjunct2, THEN conjunct2, THEN conjunct2, THEN conjunct2, THEN conjunct2, THEN conjunct2, THEN conjunct1, rule_format]
  have "labelCount final = Some (length (filter is_label (visited ?tree)))"
    by (rule count) (intro conjI final count_hyp)
  with labels have 4: "labelCount final = Some 3"
    by simp
  have joined_hyp: "visited ?tree = take 8 (visited ?tree) @ ?joined
                       # take 2 (drop 9 (visited ?tree)) @ ?march # drop 12 (visited ?tree)"
    "length (filter is_label (take 8 (visited ?tree))) = 1" "is_label ?joined"
    "\<forall>n \<in> set (take 2 (drop 9 (visited ?tree))). \<not> is_label n \<and> \<not> is_value n"
    "is_value ?march"
    by code_simp+
  note second = text_step_labels_values [where tree = ?tree and final = final
      and pre = "take 8 (visited ?tree)" and l = ?joined
      and gap = "take 2 (drop 9 (visited ?tree))" and v = ?march
      and after = "drop 12 (visited ?tree)", THEN conjunct2, THEN conjunct2, THEN conjunct2, THEN conjunct2, THEN conjunct2, THEN conjunct2, THEN conjunct2, THEN conjunct2, THEN conjunct2, THEN conjunct2, THEN conjunct2, THEN conjunct2, THEN conjunct1, rule_format]
  have 5: "joined final = text_of ?march"
    by (rule second) (intro conjI final joined_hyp)
  have location_hyp: "visited ?tree = take 15 (visited ?tree) @ ?based
                       # take 1 (drop 16 (visited ?tree)) @ ?taiwan # drop 18 (visited ?tree)"
    "length (filter is_label (take 15 (visited ?tree))) = 2" "is_label ?based"
    "\<forall>n \<in> set (take 1 (drop 16 (visited ?tree))). \<not> is_label n \<and> \<not> is_value n"
    "is_value ?taiwan"
    by code_simp+
  note third = text_step_labels_values [where tree = ?tree and final = final
      and pre = "take 15 (visited ?tree)" and l = ?based
      and gap = "take 1 (drop 16 (visited ?tree))" and v = ?taiwan
      and after = "drop 18 (visited ?tree)", THEN conjunct2, THEN conjunct2, THEN conjunct2, THEN conjunct2, THEN conjunct2, THEN conjunct2, THEN conjunct2, THEN conjunct2, THEN conjunct2, THEN conjunct2, THEN conjunct2, THEN conjunct2, THEN conjunct2, THEN conjunct1, rule_format]
  have 6: "location final = text_of ?taiwan"
    by (rule third) (intro conjI final location_hyp)
  have texts: "text_of ?march = Some (JStr ''March 2020'')" "text_of ?taiwan = Some (JStr ''Taiwan'')"
    by (rule text_of_text_node(1))+
  from 1 2 3 have "text_step ?march ?pending
       = empty_profile\<lparr>labelCount := Some 2, valueCount := Some 0, lastLabelIndex := Null,
                        joined := Some (JStr ''March 2020'')\<rparr>
     \<and> text_step ?bare ?idle = ?idle
     \<and> text_step (text_node ''normal'' (JStr [])) ?pending = ?pending"
    by (simp add: empty_profile_def truthy_opt_def texts)
  moreover from 4 5 6 final texts
  have "map_option (\<lambda>final. (labelCount final, joined final, location final))
          (extractProfileInfo ?tree empty_profile)
        = Some (Some 3, Some (JStr ''March 2020''), Some (JStr ''Taiwan''))"
    by simp
  ultimately show ?thesis
    by blast
qed

section \<open>C5: bulk route definitions\<close>

text \<open>
  While no entry with a matching key has a \<^verbatim>\<open>null\<close> descriptor, the loop does not throw
  and stores, in order, the pair of each entry: the username of the decoded key with the
  string of the first truthy identifier of the two paths.
\<close>

lemma route_loop_no_null:
  assumes "\<forall>e \<in> set entries. \<not> route_throws unq e"
  shows "route_loop unq st entries = (False, add_all st (concat (map (route_pair unq) entries)))"
proof -
  from assms have all: "takeWhile (\<lambda>e. \<not> route_throws unq e) entries = entries"
    by (simp add: takeWhile_eq_all_conv)
  show ?thesis
    unfolding route_loop_pairs all using assms by simp
qed

text \<open>
  C5, at an input where the code departs from it. The descriptor of \<^verbatim>\<open>/@bob\<close> has the
  identifier at the root view path and alone it yields \<open>(''bob'', ''42'')\<close>. Behind a route
  \<^verbatim>\<open>/@alice\<close> whose descriptor is \<^verbatim>\<open>null\<close> it yields nothing: \<^verbatim>\<open>routeData.result\<close> throws on
  \<^verbatim>\<open>null\<close>, the loop ends there, and the map stays empty in the XHR handler and in the
  fetch hook alike.
\<close>

theorem bulk_routes_null_descriptor:
  "route_pair Some (''/@bob'', route_descriptor ''rootView'' (JStr ''42'')) = [(''bob'', ''42'')]
   \<and> userIdMap (xhr_mine
         (\<lambda>t. Some (bulk_payload [(''/@bob'', route_descriptor ''rootView'' (JStr ''42''))]))
         Some init_state ''/ajax/bulk-route-definitions/'' ''for (;;);{}'')
       = [(''bob'', JStr ''42'')]
   \<and> userIdMap (xhr_mine
         (\<lambda>t. Some (bulk_payload [(''/@alice'', JNull),
                                   (''/@bob'', route_descriptor ''rootView'' (JStr ''42''))]))
         Some init_state ''/ajax/bulk-route-definitions/'' ''for (;;);{}'')
       = []
   \<and> userIdMap (fetch_mine
         (\<lambda>t. Some (bulk_payload [(''/@alice'', JNull),
                                   (''/@bob'', route_descriptor ''rootView'' (JStr ''42''))]))
         Some init_state ''/ajax/bulk-route-definitions/'' ''for (;;);{}'')
       = []
   \<and> fst (bulk_routes Some init_state
         (bulk_payload [(''/@alice'', JNull),
                        (''/@bob'', route_descriptor ''rootView'' (JStr ''42''))]))"
  by code_simp

section \<open>C6: the debounced broadcast\<close>

text \<open>
  From an idle state, a burst of discoveries of new names with every gap under a second
  posts nothing until a second has passed since the last of them, and then posts one
  message with all the pairs.
\<close>

lemma discover_new:
  assumes "\<not> map_has (userIdMap st) uname" and "uname \<noteq> ''__proto__''"
    and "map_of (pendingNewUserIds st) uname = None"
    and "broadcastTimeout st = Some due" and "t < due"
  shows "snd (addUserId (advance t st) uname userId)
         = st\<lparr>userIdMap := userIdMap st @ [(uname, JStr userId)],
               pendingNewUserIds := pendingNewUserIds st @ [(uname, userId)],
               broadcastTimeout := Some (t + 1000), now := t\<rparr>"
  using assms
  by (simp add: addUserId_def advance_def broadcastNewUserIds_def map_set_def obj_set_def)

lemma burst_continues:
  assumes "broadcastTimeout st = Some (prev + 1000)" and "now st = prev"
    and "gaps_under_second prev es" and "new_names st es"
  shows "discoveries st es
         = st\<lparr>userIdMap := userIdMap st @ map (\<lambda>e. (fst (snd e), JStr (snd (snd e)))) es,
               pendingNewUserIds := pendingNewUserIds st @ map snd es,
               broadcastTimeout := Some (last (prev # map fst es) + 1000),
               now := last (prev # map fst es)\<rparr>"
  using assms
proof (induction es arbitrary: st prev)
  case Nil
  then show ?case by simp
next
  case (Cons e es)
  obtain t uname userId where e: "e = (t, uname, userId)"
    by (cases e) auto
  let ?st = "st\<lparr>userIdMap := userIdMap st @ [(uname, JStr userId)],
               pendingNewUserIds := pendingNewUserIds st @ [(uname, userId)],
               broadcastTimeout := Some (t + 1000), now := t\<rparr>"
  from Cons.prems e have step: "snd (addUserId (advance t st) uname userId) = ?st"
    by (intro discover_new) (auto simp: new_names_def)
  have "new_names ?st es"
    using Cons.prems(4) e
    by (auto simp: new_names_def map_has_def)
  moreover have "gaps_under_second t es"
    using Cons.prems(3) e by simp
  ultimately have "discoveries ?st es
         = ?st\<lparr>userIdMap := userIdMap ?st @ map (\<lambda>e. (fst (snd e), JStr (snd (snd e)))) es,
               pendingNewUserIds := pendingNewUserIds ?st @ map snd es,
               broadcastTimeout := Some (last (t # map fst es) + 1000),
               now := last (t # map fst es)\<rparr>"
    by (intro Cons.IH) simp_all
  with step e show ?case
    by simp
qed

lemma debounce_burst:
  assumes "broadcastTimeout st = None" and "pendingNewUserIds st = []"
    and "gaps_under_second t0 rest" and "new_names st ((t0, u0, i0) # rest)"
  shows "posted (advance T (discoveries st ((t0, u0, i0) # rest)))
         = (if last (t0 # map fst rest) + 1000 \<le> T
            then posted st @ [NewUserIds ((u0, i0) # map snd rest)]
            else posted st)"
proof -
  let ?st = "st\<lparr>userIdMap := userIdMap st @ [(u0, JStr i0)],
               pendingNewUserIds := [(u0, i0)],
               broadcastTimeout := Some (t0 + 1000), now := t0\<rparr>"
  have first: "snd (addUserId (advance t0 st) u0 i0) = ?st"
    using assms(1,2,4)
    by (simp add: addUserId_def advance_def broadcastNewUserIds_def map_set_def obj_set_def
                  new_names_def)
  have "new_names ?st rest"
    using assms(2,4) by (auto simp: new_names_def map_has_def)
  with assms(3) have "discoveries ?st rest
         = ?st\<lparr>userIdMap := userIdMap ?st @ map (\<lambda>e. (fst (snd e), JStr (snd (snd e)))) rest,
               pendingNewUserIds := pendingNewUserIds ?st @ map snd rest,
               broadcastTimeout := Some (last (t0 # map fst rest) + 1000),
               now := last (t0 # map fst rest)\<rparr>"
    by (intro burst_continues) simp_all
  with first show ?thesis
    by (simp add: advance_def broadcast_callback_def)
qed

text \<open>
  C6, at an input where the code departs from it. The username \<^verbatim>\<open>__proto__\<close> passes the
  username pattern and is stored in the map, but the assignment to the plain object
  \<^verbatim>\<open>pendingNewUserIds\<close> creates no property for it. A burst that consists of this one
  discovery posts no message at all, and a burst that contains it posts a message
  without it.
\<close>

theorem broadcast_drops_proto:
  "userIdMap (extractUserIds init_state (JObj [(''id'', JStr ''1''), (''username'', JStr ''__proto__'')]))
     = [(''__proto__'', JStr ''1'')]
   \<and> pendingNewUserIds
        (extractUserIds init_state (JObj [(''id'', JStr ''1''), (''username'', JStr ''__proto__'')]))
     = []
   \<and> posted (advance 5000 (discoveries init_state [(0, ''__proto__'', ''1'')])) = []
   \<and> posted (advance 5000 (discoveries init_state
                 [(0, ''alice'', ''1''), (500, ''__proto__'', ''2''), (1400, ''bob'', ''3'')]))
     = [NewUserIds [(''alice'', ''1''), (''bob'', ''3'')]]"
  by code_simp

section \<open>C7: the rate-limited outcome\<close>

text \<open>
  C7. When the session tokens are there and the response of the active fetch has status
  429, \<^verbatim>\<open>fetchProfileInfo\<close> returns the rate-limited marker and dispatches
  \<^verbatim>\<open>threads-rate-limited\<close>, and that is all it does: the body of the response is neither
  read nor parsed.
\<close>

theorem fetchProfileInfo_rate_limited:
  "fetchProfileInfo parse m True targetUserId (Response 429 body)
     = (ResultRateLimited, [Dispatch RateLimited])
   \<and> ReadBody \<notin> set (snd (fetchProfileInfo parse m True targetUserId (Response 429 body)))
   \<and> ParseBody \<notin> set (snd (fetchProfileInfo parse m True targetUserId (Response 429 body)))"
  by (simp add: fetchProfileInfo_def)

section \<open>C8: username resolution in the active fetch\<close>

lemma resolve_username_first:
  assumes "m = before @ (uname, JStr (string_of targetUserId)) # after"
    and "\<forall>e \<in> set before. snd e \<noteq> JStr (string_of targetUserId)"
  shows "resolve_username m targetUserId = Some uname"
proof -
  have "find (\<lambda>(uname, uid). uid = JStr (string_of targetUserId)) (before @ rest)
          = find (\<lambda>(uname, uid). uid = JStr (string_of targetUserId)) rest" for rest
    using assms(2) by (induction before) (auto split: prod.splits)
  then show ?thesis
    by (simp add: resolve_username_def assms(1))
qed

lemma resolve_username_none:
  assumes "\<forall>e \<in> set m. snd e \<noteq> JStr (string_of targetUserId)"
  shows "resolve_username m targetUserId = None"
  using assms by (auto simp: resolve_username_def find_None_iff)

lemma has_username_delete [simp]: "has_username (delete_bookkeeping p) = has_username p"
  by (simp add: has_username_def delete_bookkeeping_def)

lemma has_username_set [simp]: "has_username (p\<lparr>username := Some u\<rparr>) = (u \<noteq> [])"
  by (simp add: has_username_def)

lemma fetchProfileInfo_parsed:
  assumes "status \<noteq> 429" and "parseProfileResponse parse text = Some parsed"
    and "\<not> has_username parsed"
  shows "fetchProfileInfo parse m True targetUserId (Response status (Some text)) =
     (let resolved = (case resolve_username m targetUserId of
                        Some uname \<Rightarrow> parsed\<lparr>username := Some uname\<rparr>
                      | None \<Rightarrow> parsed)
      in if has_username resolved \<or> truthy_opt (joined resolved) \<or> truthy_opt (location resolved)
         then (let final = (if \<not> has_username resolved
                            then (delete_bookkeeping resolved)
                                   \<lparr>username := Some (''user_'' @ string_of targetUserId),
                                    userIdOnly := True\<rparr>
                            else delete_bookkeeping resolved)
               in (ResultProfile final, [ReadBody, ParseBody, Dispatch (ProfileExtracted final)]))
         else (ResultNull, [ReadBody, ParseBody]))"
  using assms by (simp add: fetchProfileInfo_def Let_def)

text \<open>
  C8. Let the response of the active fetch have a status other than 429 and a body
  that parses to a record without a username. If the map has an entry whose identifier
  is the string of the target identifier, the record is returned and dispatched with
  the username of the first such entry (usernames in the map are not empty, as the data
  model has them). If the map has no such entry and the record has a joined date or a
  location, it is returned and dispatched with the placeholder \<^verbatim>\<open>user_<id>\<close> and the
  id-only tag. If it has neither, nothing is dispatched and \<^verbatim>\<open>null\<close> is returned. A
  dispatched record always has a username, a joined date or a location.
\<close>

theorem fetchProfileInfo_username_resolution:
  assumes "status \<noteq> 429"
    and "parseProfileResponse parse text = Some parsed"
    and "\<not> has_username parsed"
  shows "(\<forall>before uname after.
            m = before @ (uname, JStr (string_of targetUserId)) # after
            \<and> (\<forall>e \<in> set before. snd e \<noteq> JStr (string_of targetUserId))
            \<and> uname \<noteq> []
          \<longrightarrow> fetchProfileInfo parse m True targetUserId (Response status (Some text)) =
                (ResultProfile (delete_bookkeeping (parsed\<lparr>username := Some uname\<rparr>)),
                 [ReadBody, ParseBody,
                  Dispatch (ProfileExtracted (delete_bookkeeping (parsed\<lparr>username := Some uname\<rparr>)))]))
       \<and> ((\<forall>e \<in> set m. snd e \<noteq> JStr (string_of targetUserId))
            \<and> (truthy_opt (joined parsed) \<or> truthy_opt (location parsed))
          \<longrightarrow> fetchProfileInfo parse m True targetUserId (Response status (Some text)) =
                (ResultProfile ((delete_bookkeeping parsed)
                                  \<lparr>username := Some (''user_'' @ string_of targetUserId),
                                   userIdOnly := True\<rparr>),
                 [ReadBody, ParseBody,
                  Dispatch (ProfileExtracted ((delete_bookkeeping parsed)
                                  \<lparr>username := Some (''user_'' @ string_of targetUserId),
                                   userIdOnly := True\<rparr>))]))
       \<and> ((\<forall>e \<in> set m. snd e \<noteq> JStr (string_of targetUserId))
            \<and> \<not> truthy_opt (joined parsed) \<and> \<not> truthy_opt (location parsed)
          \<longrightarrow> fetchProfileInfo parse m True targetUserId (Response status (Some text)) =
                (ResultNull, [ReadBody, ParseBody]))
       \<and> (\<forall>p. Dispatch (ProfileExtracted p)
                  \<in> set (snd (fetchProfileInfo parse m True targetUserId (Response status (Some text))))
          \<longrightarrow> has_username p \<or> truthy_opt (joined p) \<or> truthy_opt (location p))"
proof (intro conjI allI impI)
  fix before uname after
  assume a: "m = before @ (uname, JStr (string_of targetUserId)) # after
            \<and> (\<forall>e \<in> set before. snd e \<noteq> JStr (string_of targetUserId)) \<and> uname \<noteq> []"
  then have "resolve_username m targetUserId = Some uname"
    using resolve_username_first by blast
  with a show "fetchProfileInfo parse m True targetUserId (Response status (Some text)) =
                (ResultProfile (delete_bookkeeping (parsed\<lparr>username := Some uname\<rparr>)),
                 [ReadBody, ParseBody,
                  Dispatch (ProfileExtracted (delete_bookkeeping (parsed\<lparr>username := Some uname\<rparr>)))])"
    by (simp add: fetchProfileInfo_parsed [OF assms] Let_def)
next
  assume a: "(\<forall>e \<in> set m. snd e \<noteq> JStr (string_of targetUserId))
            \<and> (truthy_opt (joined parsed) \<or> truthy_opt (location parsed))"
  then have "resolve_username m targetUserId = None"
    using resolve_username_none by blast
  with a assms(3) show "fetchProfileInfo parse m True targetUserId (Response status (Some text)) =
                (ResultProfile ((delete_bookkeeping parsed)
                                  \<lparr>username := Some (''user_'' @ string_of targetUserId),
                                   userIdOnly := True\<rparr>),
                 [ReadBody, ParseBody,
                  Dispatch (ProfileExtracted ((delete_bookkeeping parsed)
                                  \<lparr>username := Some (''user_'' @ string_of targetUserId),
                                   userIdOnly := True\<rparr>))])"
    by (auto simp: fetchProfileInfo_parsed [OF assms] Let_def)
next
  assume a: "(\<forall>e \<in> set m. snd e \<noteq> JStr (string_of targetUserId))
            \<and> \<not> truthy_opt (joined parsed) \<and> \<not> truthy_opt (location parsed)"
  then have "resolve_username m targetUserId = None"
    using resolve_username_none by blast
  with a assms(3) show "fetchProfileInfo parse m True targetUserId (Response status (Some text)) =
                (ResultNull, [ReadBody, ParseBody])"
    by (simp add: fetchProfileInfo_parsed [OF assms] Let_def)
next
  fix p
  assume "Dispatch (ProfileExtracted p)
            \<in> set (snd (fetchProfileInfo parse m True targetUserId (Response status (Some text))))"
  then show "has_username p \<or> truthy_opt (joined p) \<or> truthy_opt (location p)"
    by (auto simp: fetchProfileInfo_parsed [OF assms] Let_def has_username_def delete_bookkeeping_def
             split: option.splits if_splits)
qed


theorem fetchProfileInfo_username_resolution_witness:
  "(200::nat) \<noteq> 429
   \<and> parseProfileResponse
         (\<lambda>t. Some (JArr [text_node ''semibold'' (JStr ''Name''), text_node ''normal'' (JStr ''Jane''),
                          text_node ''semibold'' (JStr ''Joined''),
                          text_node ''normal'' (JStr ''March 2020'')])) ''for (;;);{}''
       = Some \<lparr>displayName = None, username = None, joined = Some (JStr ''March 2020''),
               location = None, profileImage = None, labelCount = Some 2, valueCount = Some 0,
               lastLabelIndex = Null, userIdOnly = False\<rparr>
   \<and> fetchProfileInfo
         (\<lambda>t. Some (JArr [text_node ''semibold'' (JStr ''Name''), text_node ''normal'' (JStr ''Jane''),
                          text_node ''semibold'' (JStr ''Joined''),
                          text_node ''normal'' (JStr ''March 2020'')]))
         [(''jane'', JStr ''42'')] True (Some (JNum ''42'')) (Response 200 (Some ''for (;;);{}''))
       = (ResultProfile
            \<lparr>displayName = None, username = Some ''jane'', joined = Some (JStr ''March 2020''),
             location = None, profileImage = None, labelCount = None, valueCount = None,
             lastLabelIndex = Absent, userIdOnly = False\<rparr>,
          [ReadBody, ParseBody,
           Dispatch (ProfileExtracted
            \<lparr>displayName = None, username = Some ''jane'', joined = Some (JStr ''March 2020''),
             location = None, profileImage = None, labelCount = None, valueCount = None,
             lastLabelIndex = Absent, userIdOnly = False\<rparr>)])"
proof -
  let ?parse = "\<lambda>t::string. Some (JArr [text_node ''semibold'' (JStr ''Name''),
                          text_node ''normal'' (JStr ''Jane''),
                          text_node ''semibold'' (JStr ''Joined''),
                          text_node ''normal'' (JStr ''March 2020'')])"
  let ?parsed = "\<lparr>displayName = None, username = None, joined = Some (JStr ''March 2020''),
               location = None, profileImage = None, labelCount = Some 2, valueCount = Some 0,
               lastLabelIndex = Null, userIdOnly = False\<rparr>"
  have h1: "(200::nat) \<noteq> 429"
    by simp
  have h2: "parseProfileResponse ?parse ''for (;;);{}'' = Some ?parsed"
    by code_simp
  have h3: "\<not> has_username ?parsed"
    by (simp add: has_username_def)
  note first = fetchProfileInfo_username_resolution [OF h1 h2 h3,
      of "[(''jane'', JStr ''42'')]" "Some (JNum ''42'')",
      THEN conjunct1, rule_format, of "[]" "''jane''" "[]"]
  have "fetchProfileInfo ?parse [(''jane'', JStr ''42'')] True (Some (JNum ''42''))
          (Response 200 (Some ''for (;;);{}''))
        = (ResultProfile (delete_bookkeeping (?parsed\<lparr>username := Some ''jane''\<rparr>)),
           [ReadBody, ParseBody,
            Dispatch (ProfileExtracted (delete_bookkeeping (?parsed\<lparr>username := Some ''jane''\<rparr>)))])"
    by (rule first) (simp add: string_of_def)
  with h1 h2 show ?thesis
    by (simp add: delete_bookkeeping_def)
qed

section \<open>C9: bookkeeping fields are stripped\<close>

text \<open>
  C9. No profile record that leaves the module carries the label counter, the value
  counter or the last-label index: not one dispatched by the fetch hook or by the XHR
  hook, and not one dispatched or returned by \<^verbatim>\<open>fetchProfileInfo\<close>.
\<close>

theorem emitted_records_have_no_bookkeeping:
  "(\<forall>p. ProfileExtracted p \<in> set (fetch_profile_hook parse url text) \<longrightarrow> no_bookkeeping p)
   \<and> (\<forall>p. ProfileExtracted p \<in> set (xhr_profile_hook parse url text) \<longrightarrow> no_bookkeeping p)
   \<and> (\<forall>p. Dispatch (ProfileExtracted p)
              \<in> set (snd (fetchProfileInfo parse m haveTokens targetUserId resp))
          \<longrightarrow> no_bookkeeping p)
   \<and> (\<forall>p. fst (fetchProfileInfo parse m haveTokens targetUserId resp) = ResultProfile p
          \<longrightarrow> no_bookkeeping p)"
proof -
  have clean: "no_bookkeeping (delete_bookkeeping p)" for p
    by (simp add: no_bookkeeping_def delete_bookkeeping_def)
  have clean2: "no_bookkeeping ((delete_bookkeeping p)\<lparr>username := u, userIdOnly := b\<rparr>)" for p u b
    by (simp add: no_bookkeeping_def delete_bookkeeping_def)
  have emit: "ProfileExtracted p \<in> set (emit_parsed parse t) \<Longrightarrow> no_bookkeeping p" for p t
    by (auto simp: emit_parsed_def clean split: option.splits if_splits)
  have a: "\<forall>p. ProfileExtracted p \<in> set (fetch_profile_hook parse url text) \<longrightarrow> no_bookkeeping p"
    by (auto simp: fetch_profile_hook_def emit split: if_splits)
  have b: "\<forall>p. ProfileExtracted p \<in> set (xhr_profile_hook parse url text) \<longrightarrow> no_bookkeeping p"
    by (auto simp: xhr_profile_hook_def emit split: if_splits)
  have c: "\<forall>p. Dispatch (ProfileExtracted p)
              \<in> set (snd (fetchProfileInfo parse m haveTokens targetUserId resp))
          \<longrightarrow> no_bookkeeping p"
    by (auto simp: fetchProfileInfo_def Let_def clean clean2
             split: response.splits option.splits if_splits)
  have d: "\<forall>p. fst (fetchProfileInfo parse m haveTokens targetUserId resp) = ResultProfile p
          \<longrightarrow> no_bookkeeping p"
    by (auto simp: fetchProfileInfo_def Let_def clean clean2
             split: response.splits option.splits if_splits)
  from a b c d show ?thesis by blast
qed

theorem emitted_records_have_no_bookkeeping_witness:
  "ProfileExtracted
     \<lparr>displayName = Some ''Jane Doe'', username = Some ''jane.doe'',
      joined = Some (JStr ''March 2020''), location = Some (JStr ''Taiwan''),
      profileImage = None, labelCount = None, valueCount = None, lastLabelIndex = Absent,
      userIdOnly = False\<rparr>
     \<in> set (fetch_profile_hook
              (\<lambda>t. Some (JArr [rich_node [''Jane Doe (@jane.doe'', '')''],
                 text_node ''semibold'' (JStr ''Name''), text_node ''normal'' (JStr ''Jane''),
                 text_node ''semibold'' (JStr ''Joined''), text_node ''normal'' (JStr ''March 2020''),
                 text_node ''semibold'' (JStr ''Based in''), text_node ''normal'' (JStr ''Taiwan'')]))
              ''/async/wbloks/fetch/?appid=com.bloks.www.text_post_app.about_this_profile_async_action''
              ''for (;;);{}'')
   \<and> no_bookkeeping
     \<lparr>displayName = Some ''Jane Doe'', username = Some ''jane.doe'',
      joined = Some (JStr ''March 2020''), location = Some (JStr ''Taiwan''),
      profileImage = None, labelCount = None, valueCount = None, lastLabelIndex = Absent,
      userIdOnly = False\<rparr>"
proof -
  let ?p = "\<lparr>displayName = Some ''Jane Doe'', username = Some ''jane.doe'',
      joined = Some (JStr ''March 2020''), location = Some (JStr ''Taiwan''),
      profileImage = None, labelCount = None, valueCount = None, lastLabelIndex = Absent,
      userIdOnly = False\<rparr>"
  let ?parse = "\<lambda>t::string. Some (JArr [rich_node [''Jane Doe (@jane.doe'', '')''],
                 text_node ''semibold'' (JStr ''Name''), text_node ''normal'' (JStr ''Jane''),
                 text_node ''semibold'' (JStr ''Joined''), text_node ''normal'' (JStr ''March 2020''),
                 text_node ''semibold'' (JStr ''Based in''), text_node ''normal'' (JStr ''Taiwan'')])"
  let ?url = "''/async/wbloks/fetch/?appid=com.bloks.www.text_post_app.about_this_profile_async_action''"
  have mem: "ProfileExtracted ?p \<in> set (fetch_profile_hook ?parse ?url ''for (;;);{}'')"
    by code_simp
  note all = emitted_records_have_no_bookkeeping [of ?parse ?url "''for (;;);{}''",
      THEN conjunct1, rule_format, of ?p]
  from all [OF mem] mem show ?thesis
    by simp
qed

section \<open>C10: identity lookup requests\<close>

text \<open>
  C10, as stated, fails: a lookup request whose \<^verbatim>\<open>source\<close> is not the window itself is
  received and gets no response, whether the username is known or not.
\<close>

theorem userid_request_counterexample:
  "posted (snd (message_listener (\<lambda>t. None) False NetworkError
             (snd (addUserId init_state ''bob'' ''1'')) False
             (JObj [(''type'', JStr ''threads-userid-request''),
                    (''requestId'', JNum ''7''), (''username'', JStr ''bob'')]))) = []"
  by code_simp

text \<open>
  C10, amended. For a message of type \<^verbatim>\<open>threads-userid-request\<close> that carries a request id
  and a username and whose source is the window itself, exactly one message is posted,
  of type \<^verbatim>\<open>threads-userid-response\<close> with the same request id; its \<^verbatim>\<open>userId\<close> is the value
  the map has for the username when that value is truthy, and \<^verbatim>\<open>null\<close> when the username
  is unknown or its stored value is falsy. Nothing is dispatched. The same message from
  another source changes nothing and posts nothing.
\<close>

theorem userid_request_response:
  assumes "get_prop data ''type'' = Some (JStr ''threads-userid-request'')"
    and "get_prop data ''requestId'' = Some requestId"
    and "get_prop data ''username'' = Some (JStr uname)"
  shows "message_listener parse haveTokens resp st True data =
           ([], st\<lparr>posted := posted st @
                   [UserIdResponse (Some requestId)
                      (case map_get (userIdMap st) uname of
                         Some v \<Rightarrow> if truthy v then v else JNull
                       | None \<Rightarrow> JNull)]\<rparr>)
       \<and> message_listener parse haveTokens resp st False data = ([], st)"
  using assms by (simp add: message_listener_def lookup_or_null_def Let_def)

theorem userid_request_response_witness:
  "message_listener (\<lambda>t. None) False NetworkError (snd (addUserId init_state ''bob'' ''1'')) True
     (JObj [(''type'', JStr ''threads-userid-request''),
            (''requestId'', JNum ''7''), (''username'', JStr ''bob'')])
   = ([], (snd (addUserId init_state ''bob'' ''1''))
            \<lparr>posted := [UserIdResponse (Some (JNum ''7'')) (JStr ''1'')]\<rparr>)
   \<and> message_listener (\<lambda>t. None) False NetworkError (snd (addUserId init_state ''bob'' ''1'')) True
     (JObj [(''type'', JStr ''threads-userid-request''),
            (''requestId'', JNum ''8''), (''username'', JStr ''carol'')])
   = ([], (snd (addUserId init_state ''bob'' ''1''))
            \<lparr>posted := [UserIdResponse (Some (JNum ''8'')) JNull]\<rparr>)"
proof -
  let ?st = "snd (addUserId init_state ''bob'' ''1'')"
  let ?bob = "JObj [(''type'', JStr ''threads-userid-request''),
            (''requestId'', JNum ''7''), (''username'', JStr ''bob'')]"
  let ?carol = "JObj [(''type'', JStr ''threads-userid-request''),
            (''requestId'', JNum ''8''), (''username'', JStr ''carol'')]"
  have b: "get_prop ?bob ''type'' = Some (JStr ''threads-userid-request'')"
    "get_prop ?bob ''requestId'' = Some (JNum ''7'')"
    "get_prop ?bob ''username'' = Some (JStr ''bob'')"
    by simp_all
  have c: "get_prop ?carol ''type'' = Some (JStr ''threads-userid-request'')"
    "get_prop ?carol ''requestId'' = Some (JNum ''8'')"
    "get_prop ?carol ''username'' = Some (JStr ''carol'')"
    by simp_all
  have st: "posted ?st = []" "map_get (userIdMap ?st) ''bob'' = Some (JStr ''1'')"
    "map_get (userIdMap ?st) ''carol'' = None"
    by (simp_all add: identity_defs)
  from userid_request_response [OF b, of "\<lambda>t. None" False NetworkError ?st]
       userid_request_response [OF c, of "\<lambda>t. None" False NetworkError ?st] st
  show ?thesis
    by simp
qed

end
